theory Spec2Isabelle
  imports Main "HOL-Library.Log_Nat" "HOL-Library.AList"
begin

section \<open>JavaScript numbers\<close>

text \<open>
  Every number of the frontend is a JavaScript \<^verbatim>\<open>number\<close>: an IEEE 754 binary64 value.
  A finite value is kept as the rational it denotes; the two infinities and NaN are
  separate constructors. The two zeros are identified: the pages never divide by a
  variable, so the sign of a zero is not observable in the functions below.
\<close>

datatype jsnum = Fin rat | PInf | NInf | NaN

text \<open>\<open>ilog2 a\<close> is the binary exponent of a positive rational: \<open>2^e \<le> a < 2^(e+1)\<close>.\<close>

definition ilog2 :: "rat \<Rightarrow> int" where
  "ilog2 a = (let (p, q) = quotient_of a; d = bitlen p - bitlen q
              in if 2 powi d \<le> a then d else d - 1)"

text \<open>Rounding to the nearest integer, ties to the even one.\<close>

definition round_even :: "rat \<Rightarrow> int" where
  "round_even x = (let f = \<lfloor>x\<rfloor>; d = x - of_int f
                   in if d < 1 / 2 then f else if 1 / 2 < d then f + 1
                      else if even f then f else f + 1)"

fun js_neg :: "jsnum \<Rightarrow> jsnum" where
  "js_neg (Fin a) = Fin (- a)"
| "js_neg PInf = NInf"
| "js_neg NInf = PInf"
| "js_neg NaN = NaN"

text \<open>
  Round-to-nearest-even into binary64, for a positive rational: 53 significant bits, the
  exponent of a normal value between \<open>-1022\<close> and \<open>1023\<close>, subnormal values on the
  grid \<open>2^-1074\<close>. The rounded magnitude \<open>n * 2^(e-52)\<close> reaches \<open>2^1024\<close>, and the
  result is infinite, exactly when \<open>e \<ge> 1024\<close>, or \<open>e = 1023\<close> and \<open>n = 2^53\<close>.
\<close>

definition fl_pos :: "rat \<Rightarrow> jsnum" where
  "fl_pos a = (let e = max (ilog2 a) (- 1022); n = round_even (a / 2 powi (e - 52))
               in if 1024 \<le> e \<or> (e = 1023 \<and> 2 ^ 53 \<le> n) then PInf
                  else Fin (of_int n * 2 powi (e - 52)))"

definition fl :: "rat \<Rightarrow> jsnum" where
  "fl x = (if x = 0 then Fin 0 else if 0 < x then fl_pos x else js_neg (fl_pos (- x)))"

text \<open>The operators \<^verbatim>\<open>+\<close>, \<^verbatim>\<open>-\<close>, \<^verbatim>\<open>*\<close>, \<^verbatim>\<open>/\<close> on numbers, and \<^verbatim>\<open>Math.max\<close>.\<close>

fun js_add :: "jsnum \<Rightarrow> jsnum \<Rightarrow> jsnum" where
  "js_add (Fin a) (Fin b) = fl (a + b)"
| "js_add NaN _ = NaN"
| "js_add _ NaN = NaN"
| "js_add PInf NInf = NaN"
| "js_add NInf PInf = NaN"
| "js_add PInf _ = PInf"
| "js_add _ PInf = PInf"
| "js_add NInf _ = NInf"
| "js_add _ NInf = NInf"

definition js_sub :: "jsnum \<Rightarrow> jsnum \<Rightarrow> jsnum" where
  "js_sub a b = js_add a (js_neg b)"

definition js_sign :: "jsnum \<Rightarrow> int" where
  "js_sign a = (case a of Fin r \<Rightarrow> (if r < 0 then - 1 else if r = 0 then 0 else 1)
                | PInf \<Rightarrow> 1 | NInf \<Rightarrow> - 1 | NaN \<Rightarrow> 0)"

definition is_finite :: "jsnum \<Rightarrow> bool" where
  "is_finite a = (case a of Fin _ \<Rightarrow> True | _ \<Rightarrow> False)"

definition js_mul :: "jsnum \<Rightarrow> jsnum \<Rightarrow> jsnum" where
  "js_mul a b =
     (case (a, b) of
        (Fin x, Fin y) \<Rightarrow> fl (x * y)
      | _ \<Rightarrow> if a = NaN \<or> b = NaN \<or> js_sign a * js_sign b = 0 then NaN
             else if 0 < js_sign a * js_sign b then PInf else NInf)"

definition js_div :: "jsnum \<Rightarrow> jsnum \<Rightarrow> jsnum" where
  "js_div a b =
     (case (a, b) of
        (Fin x, Fin y) \<Rightarrow>
          if y = 0 then (if x = 0 then NaN else if 0 < x then PInf else NInf)
          else fl (x / y)
      | (Fin x, _) \<Rightarrow> if b = NaN then NaN else Fin 0
      | _ \<Rightarrow> if a = NaN \<or> \<not> is_finite b then NaN
             else if 0 \<le> js_sign a * js_sign b then a else js_neg a)"

definition js_max :: "jsnum \<Rightarrow> jsnum \<Rightarrow> jsnum" where
  "js_max a b =
     (if a = NaN \<or> b = NaN then NaN
      else if a = PInf \<or> b = PInf then PInf
      else case (a, b) of
             (Fin x, Fin y) \<Rightarrow> Fin (max x y)
           | (NInf, _) \<Rightarrow> b
           | _ \<Rightarrow> a)"

section \<open>The invoices page: page number\<close>

text \<open>
  \<^verbatim>\<open>invoices/page.tsx\<close> keeps the page number in \<^verbatim>\<open>useState(1)\<close>. The Previous
  button runs \<^verbatim>\<open>setPage((p) => Math.max(1, p - 1))\<close> and the Next button
  \<^verbatim>\<open>setPage((p) => p + 1)\<close>; nothing else writes the state.
\<close>

datatype page_button = Previous | Next

definition initial_page :: jsnum where
  "initial_page = Fin 1"

fun click :: "jsnum \<Rightarrow> page_button \<Rightarrow> jsnum" where
  "click p Previous = js_max (Fin 1) (js_sub p (Fin 1))"
| "click p Next = js_add p (Fin 1)"

definition page_after :: "page_button list \<Rightarrow> jsnum" where
  "page_after bs = foldl click initial_page bs"

text \<open>The invariant of the page number: a whole number between 1 and \<open>2^53\<close>.\<close>

definition page_ok :: "jsnum \<Rightarrow> bool" where
  "page_ok p = (\<exists>k::int. p = Fin (of_int k) \<and> 1 \<le> k \<and> k \<le> 2 ^ 53)"

section \<open>JavaScript strings\<close>

text \<open>
  A string is a list of characters. \<^verbatim>\<open>s.startsWith(p)\<close>, \<^verbatim>\<open>s.includes(sub)\<close> and
  \<^verbatim>\<open>s.split(sep)\<close> follow the language definition: \<open>split\<close> cuts at the leftmost
  occurrences of the separator, scanning from the left, and always returns at least one
  piece for a non-empty separator (an empty separator cuts between all characters).
  All separators and prefixes of the pages are ASCII.
\<close>

definition starts_with :: "string \<Rightarrow> string \<Rightarrow> bool" where
  "starts_with s p = (take (length p) s = p)"

fun js_includes :: "string \<Rightarrow> string \<Rightarrow> bool" where
  "js_includes [] sub = (sub = [])"
| "js_includes (c # cs) sub = (starts_with (c # cs) sub \<or> js_includes cs sub)"

function js_split :: "string \<Rightarrow> string \<Rightarrow> string list" where
  "js_split sep [] = (if sep = [] then [] else [[]])"
| "js_split sep (c # cs) =
     (if sep = [] then [c] # js_split sep cs
      else if starts_with (c # cs) sep then [] # js_split sep (drop (length sep - 1) cs)
      else (case js_split sep cs of [] \<Rightarrow> [[c]] | y # ys \<Rightarrow> (c # y) # ys))"
  by pat_completeness auto
termination
  by (relation "measure (\<lambda>(sep, s). length s)") auto

text \<open>
  The decimal text of a natural number, as the template literal
  \<^verbatim>\<open>`line_items.${i}.quantity`\<close> renders the index \<open>i\<close>.
\<close>

definition digit_char :: "nat \<Rightarrow> char" where
  "digit_char d = ''0123456789'' ! d"

fun show_nat :: "nat \<Rightarrow> string" where
  "show_nat n = (if n < 10 then [digit_char n] else show_nat (n div 10) @ [digit_char (n mod 10)])"

declare show_nat.simps [simp del]

text \<open>
  \<^verbatim>\<open>parseInt(s)\<close> without a radix: leading white space is skipped, a sign is read,
  a \<^verbatim>\<open>0x\<close> prefix selects radix 16, then the longest prefix of digits counts; with no
  digit the result is NaN. The white space recognised here is the ASCII part of the
  language's list.
\<close>

definition digit_val :: "nat \<Rightarrow> char \<Rightarrow> nat option" where
  "digit_val radix c =
     (let n = (of_char c :: nat);
          d = (if 48 \<le> n \<and> n \<le> 57 then Some (n - 48)
               else if 97 \<le> n \<and> n \<le> 122 then Some (n - 87)
               else if 65 \<le> n \<and> n \<le> 90 then Some (n - 55)
               else None)
      in case d of None \<Rightarrow> None | Some v \<Rightarrow> if v < radix then Some v else None)"

fun digits_prefix :: "nat \<Rightarrow> string \<Rightarrow> nat list" where
  "digits_prefix radix [] = []"
| "digits_prefix radix (c # cs) =
     (case digit_val radix c of None \<Rightarrow> [] | Some d \<Rightarrow> d # digits_prefix radix cs)"

definition digits_value :: "nat \<Rightarrow> nat list \<Rightarrow> nat" where
  "digits_value radix ds = foldl (\<lambda>acc d. acc * radix + d) 0 ds"

definition is_space :: "char \<Rightarrow> bool" where
  "is_space c = ((of_char c :: nat) \<in> {9, 10, 11, 12, 13, 32})"

definition parseInt :: "string \<Rightarrow> jsnum" where
  "parseInt s =
     (let t = dropWhile is_space s;
          neg = starts_with t ''-'';
          u = (if starts_with t ''-'' \<or> starts_with t ''+'' then tl t else t);
          hex = (starts_with u ''0x'' \<or> starts_with u ''0X'');
          radix = (if hex then 16 else 10);
          ds = digits_prefix radix (if hex then drop 2 u else u)
      in if ds = [] then NaN
         else if neg then js_neg (fl (of_nat (digits_value radix ds)))
         else fl (of_nat (digits_value radix ds)))"

text \<open>A string made of decimal digits only.\<close>

definition digit_string :: "string \<Rightarrow> bool" where
  "digit_string s = (\<forall>c \<in> set s. \<exists>d < 10. c = digit_char d)"

section \<open>Objects, arrays and references\<close>

text \<open>
  The edit dialog of \<^verbatim>\<open>upload/page.tsx\<close> works on a graph of objects: the snapshot
  \<^verbatim>\<open>editedData\<close> refers to a header object, an array of line item objects and a totals
  object. Whether an edit is visible through an older snapshot depends on which objects
  two snapshots share, so objects live in a heap and values refer to them by address.
  An object is its list of own properties in insertion order; an array is its list of
  elements, \<open>None\<close> standing for a hole. Inherited properties (\<^verbatim>\<open>toString\<close>,
  \<^verbatim>\<open>constructor\<close>, the array methods other than the \<^verbatim>\<open>reduce\<close> call below) are not part
  of the model: a path naming one reads \<open>undefined\<close>.
\<close>

type_synonym addr = nat

datatype jsval = VUndef | VNull | VBool bool | VNum jsnum | VStr string | VRef addr

datatype jsobj = Obj "(string \<times> jsval) list" | Arr "jsval option list"

type_synonym heap = "jsobj list"

text \<open>
  A computation reads and writes the heap and either returns a value or raises.
  \<open>TypeError\<close> is the JavaScript exception; \<open>Unmodelled\<close> marks the places where the
  language does something this model does not follow (string-to-number conversion, named
  properties on arrays, a change of prototype, number formatting beyond whole numbers
  below \<open>10^21\<close>).
  The heap is returned in both cases: writes made before an exception stay.
\<close>

datatype js_error = TypeError | Unmodelled

type_synonym 'a js = "heap \<Rightarrow> (js_error + 'a) \<times> heap"

definition ret :: "'a \<Rightarrow> 'a js" where
  "ret x = (\<lambda>h. (Inr x, h))"

definition throw :: "js_error \<Rightarrow> 'a js" where
  "throw e = (\<lambda>h. (Inl e, h))"

definition bind :: "'a js \<Rightarrow> ('a \<Rightarrow> 'b js) \<Rightarrow> 'b js" where
  "bind m f = (\<lambda>h. case m h of (Inl e, h') \<Rightarrow> (Inl e, h') | (Inr x, h') \<Rightarrow> f x h')"

definition truthy :: "jsval \<Rightarrow> bool" where
  "truthy v = (case v of VUndef \<Rightarrow> False | VNull \<Rightarrow> False | VBool b \<Rightarrow> b
               | VNum n \<Rightarrow> n \<noteq> Fin 0 \<and> n \<noteq> NaN | VStr s \<Rightarrow> s \<noteq> [] | VRef _ \<Rightarrow> True)"

text \<open>
  A property key is an array index when it is the canonical decimal text of a number below
  \<open>2^32 - 1\<close>: \<^verbatim>\<open>"7"\<close> is one, \<^verbatim>\<open>"07"\<close> is not.
\<close>

definition array_index :: "string \<Rightarrow> nat option" where
  "array_index k =
     (if k \<noteq> [] \<and> digits_prefix 10 k \<noteq> [] \<and> length (digits_prefix 10 k) = length k
         \<and> (k = ''0'' \<or> hd k \<noteq> CHR ''0'')
         \<and> digits_value 10 (digits_prefix 10 k) < 4294967295
      then Some (digits_value 10 (digits_prefix 10 k)) else None)"

definition array_get :: "jsval option list \<Rightarrow> string \<Rightarrow> jsval" where
  "array_get xs k =
     (if k = ''length'' then VNum (fl (of_nat (length xs)))
      else case array_index k of
             None \<Rightarrow> VUndef
           | Some i \<Rightarrow> if i < length xs then (case xs ! i of None \<Rightarrow> VUndef | Some v \<Rightarrow> v)
                       else VUndef)"

text \<open>Writing past the end of an array extends it with holes.\<close>

definition array_set :: "jsval option list \<Rightarrow> nat \<Rightarrow> jsval \<Rightarrow> jsval option list" where
  "array_set xs i v = (xs @ replicate (Suc i - length xs) None)[i := Some v]"

definition own_prop :: "(string \<times> jsval) list \<Rightarrow> string \<Rightarrow> jsval" where
  "own_prop ps k = (case map_of ps k of None \<Rightarrow> VUndef | Some v \<Rightarrow> v)"

text \<open>
  \<^verbatim>\<open>base[k]\<close>: reading a property of \<open>undefined\<close> or \<open>null\<close> raises TypeError; a
  primitive has no own property the page could reach without raising later, and reads
  \<open>undefined\<close>.
\<close>

definition get_prop :: "jsval \<Rightarrow> string \<Rightarrow> jsval js" where
  "get_prop base k =
     (case base of
        VUndef \<Rightarrow> throw TypeError
      | VNull \<Rightarrow> throw TypeError
      | VRef a \<Rightarrow> (\<lambda>h.
          if a < length h
          then (case h ! a of
                  Obj ps \<Rightarrow> ret (own_prop ps k) h
                | Arr xs \<Rightarrow> ret (array_get xs k) h)
          else throw Unmodelled h)
      | _ \<Rightarrow> ret VUndef)"

text \<open>
  \<^verbatim>\<open>base[k] = v\<close>: the module is in strict mode, where assigning a property of a
  primitive (or of \<open>undefined\<close>, \<open>null\<close>) raises TypeError. On an object the property is
  replaced in place or appended. The key \<^verbatim>\<open>__proto__\<close> is the one name that
  \<^verbatim>\<open>Object.prototype\<close> answers with a setter: unless the object has a property of that
  name of its own (\<^verbatim>\<open>JSON.parse\<close> creates one, and a spread copies it), the assignment
  creates no property; it does nothing for a value that is neither an object nor \<open>null\<close>,
  and replaces the prototype otherwise, which this model does not follow.
\<close>

definition set_prop :: "jsval \<Rightarrow> string \<Rightarrow> jsval \<Rightarrow> unit js" where
  "set_prop base k v =
     (case base of
        VRef a \<Rightarrow> (\<lambda>h.
          if a < length h
          then (case h ! a of
                  Obj ps \<Rightarrow>
                    if k = ''__proto__'' \<and> map_of ps k = None
                    then (case v of
                            VRef _ \<Rightarrow> throw Unmodelled h
                          | VNull \<Rightarrow> throw Unmodelled h
                          | _ \<Rightarrow> ret () h)
                    else ret () (h[a := Obj (AList.update k v ps)])
                | Arr xs \<Rightarrow> (case array_index k of
                              None \<Rightarrow> throw Unmodelled h
                            | Some i \<Rightarrow> ret () (h[a := Arr (array_set xs i v)])))
          else throw Unmodelled h)
      | _ \<Rightarrow> throw TypeError)"

definition to_number :: "jsval \<Rightarrow> jsnum js" where
  "to_number v =
     (case v of
        VUndef \<Rightarrow> ret NaN
      | VNull \<Rightarrow> ret (Fin 0)
      | VBool b \<Rightarrow> ret (Fin (if b then 1 else 0))
      | VNum n \<Rightarrow> ret n
      | VStr s \<Rightarrow> throw Unmodelled
      | VRef a \<Rightarrow> throw Unmodelled)"

definition js_times :: "jsval \<Rightarrow> jsval \<Rightarrow> jsval js" where
  "js_times a b = bind (to_number a) (\<lambda>x. bind (to_number b) (\<lambda>y. ret (VNum (js_mul x y))))"

definition js_divide :: "jsval \<Rightarrow> jsval \<Rightarrow> jsval js" where
  "js_divide a b = bind (to_number a) (\<lambda>x. bind (to_number b) (\<lambda>y. ret (VNum (js_div x y))))"

definition js_plus :: "jsval \<Rightarrow> jsval \<Rightarrow> jsval js" where
  "js_plus a b =
     (case (a, b) of
        (VStr s, VStr t) \<Rightarrow> ret (VStr (s @ t))
      | _ \<Rightarrow> bind (to_number a) (\<lambda>x. bind (to_number b) (\<lambda>y. ret (VNum (js_add x y)))))"

text \<open>The property key of a number used as an index, \<^verbatim>\<open>arr[idx]\<close>.\<close>

definition number_key :: "jsnum \<Rightarrow> string js" where
  "number_key n =
     (case n of
        NaN \<Rightarrow> ret ''NaN''
      | PInf \<Rightarrow> ret ''Infinity''
      | NInf \<Rightarrow> ret ''-Infinity''
      | Fin r \<Rightarrow>
          if r = of_int \<lfloor>r\<rfloor> \<and> \<bar>r\<bar> < 1000000000000000000000
          then ret ((if r < 0 then ''-'' else '''') @ show_nat (nat \<bar>\<lfloor>r\<rfloor>\<bar>))
          else throw Unmodelled)"

text \<open>
  \<^verbatim>\<open>{ ...src }\<close>: a new object with the own properties of \<open>src\<close>. The copy is shallow:
  a property that refers to an object refers to the same object in the copy.
\<close>

definition spread :: "jsval \<Rightarrow> jsval js" where
  "spread src =
     (case src of
        VRef a \<Rightarrow> (\<lambda>h.
          if a < length h
          then (case h ! a of
                  Obj ps \<Rightarrow> ret (VRef (length h)) (h @ [Obj ps])
                | Arr xs \<Rightarrow> throw Unmodelled h)
          else throw Unmodelled h)
      | VStr s \<Rightarrow> throw Unmodelled
      | _ \<Rightarrow> (\<lambda>h. ret (VRef (length h)) (h @ [Obj []])))"

section \<open>The upload page: \<^verbatim>\<open>handleEditField\<close>\<close>

text \<open>
  \<^verbatim>\<open>
  const handleEditField = (field: string, value: string | number) => {
    if (!editedData) return;
    const updated = { ...editedData };
    const keys = field.split('.');
    let obj: Record<string, any> = updated as Record<string, any>;
    for (let i = 0; i < keys.length - 1; i++) obj = obj[keys[i]];
    obj[keys[keys.length - 1]] = value;
    if (field.includes('line_items')) {
      const idx = parseInt(keys[1]);
      const item = updated.line_items[idx];
      item.total = item.quantity * item.unit_price;
      updated.totals.subtotal = updated.line_items.reduce((sum, li) => sum + li.total, 0);
      updated.totals.tax_amount = updated.totals.subtotal * (updated.totals.tax_rate / 100);
      updated.totals.total = updated.totals.subtotal + updated.totals.tax_amount
                             + updated.totals.shipping;
    }
    setEditedData(updated);
  };
  \<close>
  The function takes the state \<^verbatim>\<open>editedData\<close> and returns its new value; when it raises,
  \<^verbatim>\<open>setEditedData\<close> is not reached and the state keeps its value.
\<close>

text \<open>The loop \<^verbatim>\<open>obj = obj[keys[i]]\<close> over the keys it is given.\<close>

fun walk :: "jsval \<Rightarrow> string list \<Rightarrow> jsval js" where
  "walk obj [] = ret obj"
| "walk obj (k # ks) = bind (get_prop obj k) (\<lambda>v. walk v ks)"

text \<open>\<^verbatim>\<open>reduce((sum, li) => sum + li.total, 0)\<close> skips the holes of the array.\<close>

fun reduce_totals :: "jsval option list \<Rightarrow> jsval \<Rightarrow> jsval js" where
  "reduce_totals [] acc = ret acc"
| "reduce_totals (None # xs) acc = reduce_totals xs acc"
| "reduce_totals (Some li # xs) acc =
     bind (get_prop li ''total'') (\<lambda>t. bind (js_plus acc t) (\<lambda>acc'. reduce_totals xs acc'))"

definition line_items_reduce :: "jsval \<Rightarrow> jsval js" where
  "line_items_reduce arr =
     (case arr of
        VUndef \<Rightarrow> throw TypeError
      | VNull \<Rightarrow> throw TypeError
      | VRef a \<Rightarrow> (\<lambda>h.
          if a < length h
          then (case h ! a of
                  Arr xs \<Rightarrow> reduce_totals xs (VNum (Fin 0)) h
                | Obj ps \<Rightarrow> throw TypeError h)
          else throw Unmodelled h)
      | _ \<Rightarrow> throw TypeError)"

text \<open>
  The body of \<^verbatim>\<open>if (field.includes('line_items'))\<close>, one property access per line, in
  the order of evaluation. \<^verbatim>\<open>keys[1]\<close> is \<open>undefined\<close> for a path of one key, and
  \<^verbatim>\<open>parseInt(undefined)\<close> is NaN.
\<close>

definition recompute :: "jsval \<Rightarrow> string list \<Rightarrow> unit js" where
  "recompute updated keys =
     bind (number_key (if 1 < length keys then parseInt (keys ! 1) else NaN)) (\<lambda>idx.
     bind (get_prop updated ''line_items'') (\<lambda>items.
     bind (get_prop items idx) (\<lambda>item.
     bind (get_prop item ''quantity'') (\<lambda>q.
     bind (get_prop item ''unit_price'') (\<lambda>p.
     bind (js_times q p) (\<lambda>t.
     bind (set_prop item ''total'' t) (\<lambda>_.
     bind (get_prop updated ''totals'') (\<lambda>totals.
     bind (get_prop updated ''line_items'') (\<lambda>items.
     bind (line_items_reduce items) (\<lambda>sub.
     bind (set_prop totals ''subtotal'' sub) (\<lambda>_.
     bind (get_prop updated ''totals'') (\<lambda>totals.
     bind (get_prop updated ''totals'') (\<lambda>totals1.
     bind (get_prop totals1 ''subtotal'') (\<lambda>sub.
     bind (get_prop updated ''totals'') (\<lambda>totals2.
     bind (get_prop totals2 ''tax_rate'') (\<lambda>rate.
     bind (js_divide rate (VNum (Fin 100))) (\<lambda>frac.
     bind (js_times sub frac) (\<lambda>tax.
     bind (set_prop totals ''tax_amount'' tax) (\<lambda>_.
     bind (get_prop updated ''totals'') (\<lambda>totals.
     bind (get_prop updated ''totals'') (\<lambda>totals1.
     bind (get_prop totals1 ''subtotal'') (\<lambda>sub.
     bind (get_prop updated ''totals'') (\<lambda>totals2.
     bind (get_prop totals2 ''tax_amount'') (\<lambda>tax.
     bind (js_plus sub tax) (\<lambda>s1.
     bind (get_prop updated ''totals'') (\<lambda>totals3.
     bind (get_prop totals3 ''shipping'') (\<lambda>ship.
     bind (js_plus s1 ship) (\<lambda>total.
     set_prop totals ''total'' total))))))))))))))))))))))))))))"

definition handleEditField :: "jsval \<Rightarrow> string \<Rightarrow> jsval \<Rightarrow> jsval js" where
  "handleEditField editedData field val =
     (if \<not> truthy editedData then ret editedData
      else
        bind (spread editedData) (\<lambda>updated.
        let keys = js_split ''.'' field in
        bind (walk updated (butlast keys)) (\<lambda>obj.
        bind (set_prop obj (last keys) val) (\<lambda>_.
        bind (if js_includes field ''line_items'' then recompute updated keys else ret ()) (\<lambda>_.
        ret updated)))))"

subsection \<open>Reading a snapshot\<close>

text \<open>
  \<open>read h v path\<close> is the value of the expression \<^verbatim>\<open>v.k1.k2...\<close> in heap \<open>h\<close>, and
  \<open>num_at\<close> the number found there. \<open>line_path i f\<close> is the path the dialog passes for
  field \<open>f\<close> of line \<open>i\<close>.
\<close>

definition read :: "heap \<Rightarrow> jsval \<Rightarrow> string list \<Rightarrow> jsval option" where
  "read h v path = (case walk v path h of (Inr x, _) \<Rightarrow> Some x | (Inl _, _) \<Rightarrow> None)"

definition num_at :: "heap \<Rightarrow> jsval \<Rightarrow> string list \<Rightarrow> jsnum option" where
  "num_at h v path = (case read h v path of Some (VNum n) \<Rightarrow> Some n | _ \<Rightarrow> None)"

definition line_path :: "nat \<Rightarrow> string \<Rightarrow> string" where
  "line_path i f = ''line_items.'' @ show_nat i @ ''.'' @ f"

definition line_totals :: "heap \<Rightarrow> jsval \<Rightarrow> nat \<Rightarrow> jsnum option list" where
  "line_totals h v n = map (\<lambda>k. num_at h v [''line_items'', show_nat k, ''total'']) [0..<n]"

subsection \<open>The shape of an extracted invoice\<close>

text \<open>
  \<^verbatim>\<open>editedData\<close> is created by \<^verbatim>\<open>JSON.parse(JSON.stringify(...))\<close>, so it is a tree:
  no object is reached twice. \<open>invoice_shape h a ha la ias ta\<close> says that the object at
  \<open>a\<close> is an \<^verbatim>\<open>ExtractedData\<close> whose header is at \<open>ha\<close>, whose line item array is at
  \<open>la\<close> and holds the objects at \<open>ias\<close>, and whose totals are at \<open>ta\<close>, with numbers
  where the interface declares numbers and all these objects distinct.
\<close>

definition props :: "heap \<Rightarrow> addr \<Rightarrow> (string \<times> jsval) list" where
  "props h a = (case h ! a of Obj ps \<Rightarrow> ps | Arr _ \<Rightarrow> [])"

definition the_num :: "jsval \<Rightarrow> jsnum" where
  "the_num v = (case v of VNum n \<Rightarrow> n | _ \<Rightarrow> NaN)"

definition is_number :: "jsval \<Rightarrow> bool" where
  "is_number v = (case v of VNum _ \<Rightarrow> True | _ \<Rightarrow> False)"

definition is_object :: "heap \<Rightarrow> addr \<Rightarrow> bool" where
  "is_object h a = (a < length h \<and> (case h ! a of Obj _ \<Rightarrow> True | Arr _ \<Rightarrow> False))"

definition has_numbers :: "heap \<Rightarrow> addr \<Rightarrow> string list \<Rightarrow> bool" where
  "has_numbers h a ks = (is_object h a \<and> list_all (\<lambda>k. is_number (own_prop (props h a) k)) ks)"

definition invoice_shape :: "heap \<Rightarrow> addr \<Rightarrow> addr \<Rightarrow> addr \<Rightarrow> addr list \<Rightarrow> addr \<Rightarrow> bool" where
  "invoice_shape h a ha la ias ta =
     (is_object h a
      \<and> own_prop (props h a) ''header'' = VRef ha
      \<and> own_prop (props h a) ''line_items'' = VRef la
      \<and> own_prop (props h a) ''totals'' = VRef ta
      \<and> is_object h ha
      \<and> la < length h \<and> h ! la = Arr (map (\<lambda>i. Some (VRef i)) ias)
      \<and> length ias < 4294967295
      \<and> list_all (\<lambda>i. has_numbers h i [''quantity'', ''unit_price'', ''total'']) ias
      \<and> has_numbers h ta [''subtotal'', ''tax_rate'', ''tax_amount'', ''shipping'', ''total'']
      \<and> distinct (a # ha # la # ta # ias))"

text \<open>
  An extraction as the language model may return it: two lines, the first with a total
  that is not quantity times unit price (validation reports such issues without blocking
  the dialog).
\<close>

definition sample_heap :: heap where
  "sample_heap =
    [Obj [(''header'', VRef 1), (''line_items'', VRef 2), (''totals'', VRef 5)],
     Obj [(''invoice_number'', VStr ''INV-1''), (''company_name'', VStr ''ACME'')],
     Arr [Some (VRef 3), Some (VRef 4)],
     Obj [(''item_number'', VStr ''A''), (''description'', VStr ''bolt''),
          (''quantity'', VNum (Fin 2)), (''unit_price'', VNum (Fin 10)), (''total'', VNum (Fin 25))],
     Obj [(''item_number'', VStr ''B''), (''description'', VStr ''nut''),
          (''quantity'', VNum (Fin 1)), (''unit_price'', VNum (Fin 80)), (''total'', VNum (Fin 80))],
     Obj [(''subtotal'', VNum (Fin 105)), (''tax_rate'', VNum (Fin 8)), (''tax_amount'', VNum (Fin 9)),
          (''shipping'', VNum (Fin 5)), (''total'', VNum (Fin 119))]]"

text \<open>An extraction without line items.\<close>

definition empty_invoice_heap :: heap where
  "empty_invoice_heap =
    [Obj [(''header'', VRef 1), (''line_items'', VRef 2), (''totals'', VRef 3)],
     Obj [(''invoice_number'', VStr ''INV-2''), (''company_name'', VStr ''ACME'')],
     Arr [],
     Obj [(''subtotal'', VNum (Fin 0)), (''tax_rate'', VNum (Fin 8)), (''tax_amount'', VNum (Fin 0)),
          (''shipping'', VNum (Fin 0)), (''total'', VNum (Fin 0))]]"

section \<open>The upload page: values received from the server\<close>

text \<open>
  \<^verbatim>\<open>JSON.parse\<close> returns a tree of values, which the page only reads; \<open>JUndef\<close> is what
  a missing property reads as. An object is its list of properties, each key once.
  Two values are \<^verbatim>\<open>===\<close> when they are equal primitives (NaN excepted); objects and
  arrays compare by identity, and a value parsed from one frame is never identical to
  one parsed from another, so they compare unequal.
\<close>

datatype jv = JUndef | JNull | JBool bool | JNum jsnum | JStr string
  | JArr "jv list" | JObj "(string \<times> jv) list"

fun jtruthy :: "jv \<Rightarrow> bool" where
  "jtruthy JUndef = False"
| "jtruthy JNull = False"
| "jtruthy (JBool b) = b"
| "jtruthy (JNum n) = (n \<noteq> Fin 0 \<and> n \<noteq> NaN)"
| "jtruthy (JStr s) = (s \<noteq> [])"
| "jtruthy (JArr _) = True"
| "jtruthy (JObj _) = True"

fun strict_eq :: "jv \<Rightarrow> jv \<Rightarrow> bool" where
  "strict_eq JUndef JUndef = True"
| "strict_eq JNull JNull = True"
| "strict_eq (JBool a) (JBool b) = (a = b)"
| "strict_eq (JNum a) (JNum b) = (a = b \<and> a \<noteq> NaN)"
| "strict_eq (JStr a) (JStr b) = (a = b)"
| "strict_eq _ _ = False"

text \<open>
  \<^verbatim>\<open>d.k\<close> for a value that is neither \<open>undefined\<close> nor \<open>null\<close>, and for the keys the
  page reads (\<^verbatim>\<open>type\<close>, \<^verbatim>\<open>success\<close>, \<^verbatim>\<open>data\<close>, \<^verbatim>\<open>error\<close>, \<^verbatim>\<open>step\<close>, \<^verbatim>\<open>status\<close>,
  \<^verbatim>\<open>message\<close>, \<^verbatim>\<open>extraction\<close>), none of which a string, a number or an array has.
\<close>

definition jprop :: "jv \<Rightarrow> string \<Rightarrow> jv" where
  "jprop d k = (case d of JObj ps \<Rightarrow> (case map_of ps k of None \<Rightarrow> JUndef | Some v \<Rightarrow> v)
                | _ \<Rightarrow> JUndef)"

definition jget :: "jv \<Rightarrow> string \<Rightarrow> js_error + jv" where
  "jget d k = (if d = JUndef \<or> d = JNull then Inl TypeError else Inr (jprop d k))"

text \<open>
  \<^verbatim>\<open>JSON.parse(JSON.stringify(x))\<close> for a defined \<open>x\<close>: a copy in which a number that is
  not finite has become \<open>null\<close>.
\<close>

fun json_copy :: "jv \<Rightarrow> jv" where
  "json_copy (JNum n) = (if is_finite n then JNum n else JNull)"
| "json_copy (JArr xs) = JArr (map json_copy xs)"
| "json_copy (JObj ps) = JObj (map (\<lambda>(k, v). (k, json_copy v)) (filter (\<lambda>(k, v). v \<noteq> JUndef) ps))"
| "json_copy JUndef = JNull"
| "json_copy v = v"

section \<open>The upload page: \<^verbatim>\<open>updateStep\<close>\<close>

text \<open>
  \<^verbatim>\<open>
  type Step = { id: string; label: string;
                status: "pending" | "active" | "complete" | "error"; message?: string };

  const updateStep = (stepId: string, status: Step["status"], message?: string) => {
    setSteps(prev => {
      const existing = prev.find(s => s.id === stepId);
      if (existing) {
        return prev.map(s => s.id === stepId
                             ? { ...s, status, message: message || s.message } : s);
      }
      const labels: Record<string, string> = {
        validate: "Validating file", upload: "Reading image", analyze: "Analyzing with AI",
        extract: "Validating data", save: "Saving to database" };
      return [...prev, { id: stepId, label: labels[stepId] || stepId, status, message }];
    });
  };
  \<close>
  The only caller passes three properties of a parsed frame, which has type \<^verbatim>\<open>any\<close>, so
  the arguments are arbitrary values; the declared types are what the server sends.
  \<^verbatim>\<open>labels[stepId]\<close> converts \<open>stepId\<close> to a property key: a string is its own key and
  an array of one element has the key of that element; no other value has one of the
  five label keys. A step id that names a property every object inherits
  (\<^verbatim>\<open>constructor\<close>, \<^verbatim>\<open>toString\<close>, ...) would get that property as its label; the label
  is kept as the id there.
\<close>

record step =
  step_id :: jv
  label :: jv
  status :: jv
  message :: jv

definition labels :: "(string \<times> string) list" where
  "labels = [(''validate'', ''Validating file''), (''upload'', ''Reading image''),
             (''analyze'', ''Analyzing with AI''), (''extract'', ''Validating data''),
             (''save'', ''Saving to database'')]"

fun property_key :: "jv \<Rightarrow> string option" where
  "property_key (JStr s) = Some s"
| "property_key (JArr [x]) = property_key x"
| "property_key _ = None"

definition label_for :: "jv \<Rightarrow> jv" where
  "label_for stepId =
     (case property_key stepId of
        None \<Rightarrow> stepId
      | Some k \<Rightarrow> (case map_of labels k of None \<Rightarrow> stepId | Some l \<Rightarrow> JStr l))"

definition updateStep :: "jv \<Rightarrow> jv \<Rightarrow> jv \<Rightarrow> step list \<Rightarrow> step list" where
  "updateStep stepId st msg prev =
     (case find (\<lambda>s. strict_eq (step_id s) stepId) prev of
        Some existing \<Rightarrow>
          map (\<lambda>s. if strict_eq (step_id s) stepId
                    then s\<lparr>status := st, message := (if jtruthy msg then msg else message s)\<rparr>
                    else s) prev
      | None \<Rightarrow>
          prev @ [\<lparr>step_id = stepId, label = label_for stepId, status = st, message = msg\<rparr>])"

subsection \<open>A sequence of step events\<close>

text \<open>
  A step event as the protocol declares it: a string id, a status and a message (any
  values). \<open>steps_after\<close> is the step list of a session that received these events,
  starting from the empty list of a new session.
\<close>

type_synonym step_event = "string \<times> jv \<times> jv"

definition steps_after :: "step_event list \<Rightarrow> step list" where
  "steps_after evs = foldl (\<lambda>ss (i, st, msg). updateStep (JStr i) st msg ss) [] evs"

text \<open>The ids of a list in the order in which each is first seen.\<close>

fun first_seen :: "'a list \<Rightarrow> 'a list" where
  "first_seen [] = []"
| "first_seen (x # xs) = x # filter (\<lambda>y. y \<noteq> x) (first_seen xs)"

text \<open>
  The status of the last event for an id, and the message the list keeps for it: the last
  one that is not absent or empty, and the message of the first event when there is none.
\<close>

definition events_for :: "string \<Rightarrow> step_event list \<Rightarrow> step_event list" where
  "events_for i evs = filter (\<lambda>e. fst e = i) evs"

definition last_status :: "string \<Rightarrow> step_event list \<Rightarrow> jv" where
  "last_status i evs = fst (snd (last (events_for i evs)))"

definition last_message :: "string \<Rightarrow> step_event list \<Rightarrow> jv" where
  "last_message i evs = snd (snd (last (events_for i evs)))"

definition kept_message :: "string \<Rightarrow> step_event list \<Rightarrow> jv" where
  "kept_message i evs =
     (let ms = map (\<lambda>e. snd (snd e)) (events_for i evs)
      in if filter jtruthy ms = [] then hd ms else last (filter jtruthy ms))"

text \<open>What holds of the step list after any sequence of step events.\<close>

definition steps_inv :: "step_event list \<Rightarrow> bool" where
  "steps_inv evs =
     (map step_id (steps_after evs) = map JStr (first_seen (map fst evs))
      \<and> (\<forall>s \<in> set (steps_after evs). \<exists>i. step_id s = JStr i
             \<and> status s = last_status i evs \<and> message s = kept_message i evs))"

text \<open>
  Three events of one session: the step \<^verbatim>\<open>upload\<close> becomes active with a message,
  \<^verbatim>\<open>analyze\<close> becomes active without one, and \<^verbatim>\<open>upload\<close> completes with an empty
  message.
\<close>

definition sample_events :: "step_event list" where
  "sample_events = [(''upload'', JStr ''active'', JStr ''Reading''),
                    (''analyze'', JStr ''active'', JUndef),
                    (''upload'', JStr ''complete'', JStr [])]"

section \<open>The upload page: \<^verbatim>\<open>handleUpload\<close>\<close>

text \<open>
  \<^verbatim>\<open>
  const handleUpload = async () => {
    if (!file) return;
    setIsLoading(true); setResult(null); setSteps([]);
    setProcessingComplete(false); setShowProcessingModal(true);
    ...
    try {
      const response = await fetch(..., { method: "POST", body: formData });
      if (!response.body) throw new Error("No response body");
      const reader = response.body.getReader();
      const decoder = new TextDecoder();
      let buffer = "";
      while (true) {
        const { done, value } = await reader.read();
        if (done) break;
        buffer += decoder.decode(value, { stream: true });
        const lines = buffer.split("\n\n");
        buffer = lines.pop() || "";
        for (const line of lines) {
          if (line.startsWith("data: ")) {
            try {
              const data = JSON.parse(line.slice(6));
              if (data.type === "result") {
                if (data.success) {
                  setResult({ success: true, data: data.data });
                  setEditedData(JSON.parse(JSON.stringify(data.data.extraction.data)));
                  setProcessingComplete(true);
                  fetchStats();
                } else {
                  setResult({ success: false, error: data.error });
                }
              } else if (data.step) {
                updateStep(data.step, data.status, data.message);
              }
            } catch (e) { console.error("Failed to parse SSE:", e); }
          }
        }
      }
    } catch (error) {
      setResult({ success: false,
                  error: { code: "ERR_NETWORK", message: "Failed to connect to server" } });
    } finally { setIsLoading(false); }
  };
  \<close>
  The state is the part of the component state the function reads or writes;
  \<^verbatim>\<open>result\<close> is \<open>JNull\<close> for \<^verbatim>\<open>null\<close>. \<^verbatim>\<open>fetchStats()\<close> starts a request of its own and
  is counted; \<^verbatim>\<open>console.error\<close> is counted. What the network does is an input: the fetch
  fails, or answers without a body, or answers with a body whose reads deliver chunks of
  text, in order, until the stream ends or a read fails. A chunk is the text the decoder
  returns for it. \<^verbatim>\<open>JSON.parse\<close> is a parameter: \<open>None\<close> is a SyntaxError.
\<close>

datatype file_object = File string

record upload_state =
  "file" :: "file_object option"
  saveToDb :: bool
  isLoading :: bool
  result :: jv
  steps :: "step list"
  processingComplete :: bool
  showProcessingModal :: bool
  editedData :: jv
  statsRequests :: nat
  consoleErrors :: nat

datatype chunk_read = Chunk string | ReadFailure

datatype response = FetchFailure | NoBody | Body "chunk_read list"

definition log_error :: "upload_state \<Rightarrow> upload_state" where
  "log_error st = st\<lparr>consoleErrors := consoleErrors st + 1\<rparr>"

text \<open>
  The branch \<^verbatim>\<open>if (data.success)\<close>. \<^verbatim>\<open>setResult\<close> has run when
  \<^verbatim>\<open>data.data.extraction.data\<close> raises, or is \<open>undefined\<close> and makes \<^verbatim>\<open>JSON.parse\<close> raise;
  the inner \<^verbatim>\<open>catch\<close> then logs, and the three statements after it are skipped.
\<close>

definition on_success :: "jv \<Rightarrow> upload_state \<Rightarrow> upload_state" where
  "on_success d st =
     (let st1 = st\<lparr>result := JObj [(''success'', JBool True), (''data'', d)]\<rparr>
      in case jget d ''extraction'' of
           Inl e \<Rightarrow> log_error st1
         | Inr ex \<Rightarrow>
             (case jget ex ''data'' of
                Inl e \<Rightarrow> log_error st1
              | Inr x \<Rightarrow>
                  if x = JUndef then log_error st1
                  else st1\<lparr>editedData := json_copy x, processingComplete := True,
                           statsRequests := statsRequests st1 + 1\<rparr>))"

text \<open>What the \<^verbatim>\<open>try\<close> block does with a parsed frame; \<^verbatim>\<open>data.type\<close> raises on \<open>null\<close>.\<close>

definition handle_data :: "jv \<Rightarrow> upload_state \<Rightarrow> upload_state" where
  "handle_data d st =
     (if d = JUndef \<or> d = JNull then log_error st
      else if strict_eq (jprop d ''type'') (JStr ''result'') then
        (if jtruthy (jprop d ''success'') then on_success (jprop d ''data'') st
         else st\<lparr>result := JObj [(''success'', JBool False), (''error'', jprop d ''error'')]\<rparr>)
      else if jtruthy (jprop d ''step'') then
        st\<lparr>steps := updateStep (jprop d ''step'') (jprop d ''status'') (jprop d ''message'') (steps st)\<rparr>
      else st)"

definition handle_line :: "(string \<Rightarrow> jv option) \<Rightarrow> upload_state \<Rightarrow> string \<Rightarrow> upload_state" where
  "handle_line parse st line =
     (if starts_with line ''data: '' then
        (case parse (drop 6 line) of
           None \<Rightarrow> log_error st
         | Some d \<Rightarrow> handle_data d st)
      else st)"

definition handle_lines :: "(string \<Rightarrow> jv option) \<Rightarrow> string list \<Rightarrow> upload_state \<Rightarrow> upload_state" where
  "handle_lines parse ls st = foldl (handle_line parse) st ls"

definition frame_end :: string where
  "frame_end = [CHR 0x0A, CHR 0x0A]"

text \<open>
  The \<^verbatim>\<open>while\<close> loop over the reads that are still to come. It returns whether it ended
  by \<^verbatim>\<open>done\<close> (\<open>True\<close>) or by an exception of \<^verbatim>\<open>reader.read()\<close> (\<open>False\<close>).
  \<^verbatim>\<open>lines.pop() || ""\<close> is the last piece: the array is never empty.
\<close>

fun read_loop :: "(string \<Rightarrow> jv option) \<Rightarrow> chunk_read list \<Rightarrow> string \<Rightarrow> upload_state
                   \<Rightarrow> bool \<times> upload_state" where
  "read_loop parse [] buffer st = (True, st)"
| "read_loop parse (ReadFailure # rs) buffer st = (False, st)"
| "read_loop parse (Chunk c # rs) buffer st =
     (let lines = js_split frame_end (buffer @ c)
      in read_loop parse rs (last lines) (handle_lines parse (butlast lines) st))"

definition network_error :: jv where
  "network_error = JObj [(''success'', JBool False),
     (''error'', JObj [(''code'', JStr ''ERR_NETWORK''),
                       (''message'', JStr ''Failed to connect to server'')])]"

text \<open>The statements before the \<^verbatim>\<open>try\<close>, the \<^verbatim>\<open>try\<close> block, and \<^verbatim>\<open>catch\<close> with \<^verbatim>\<open>finally\<close>.\<close>

definition begin_upload :: "upload_state \<Rightarrow> upload_state" where
  "begin_upload st = st\<lparr>isLoading := True, result := JNull, steps := [],
                         processingComplete := False, showProcessingModal := True\<rparr>"

definition receive :: "(string \<Rightarrow> jv option) \<Rightarrow> response \<Rightarrow> upload_state \<Rightarrow> bool \<times> upload_state" where
  "receive parse resp st =
     (case resp of
        FetchFailure \<Rightarrow> (False, st)
      | NoBody \<Rightarrow> (False, st)
      | Body rs \<Rightarrow> read_loop parse rs [] st)"

definition finish_upload :: "bool \<times> upload_state \<Rightarrow> upload_state" where
  "finish_upload r =
     (case r of
        (True, st) \<Rightarrow> st\<lparr>isLoading := False\<rparr>
      | (False, st) \<Rightarrow> st\<lparr>result := network_error, isLoading := False\<rparr>)"

definition handleUpload :: "(string \<Rightarrow> jv option) \<Rightarrow> response \<Rightarrow> upload_state \<Rightarrow> upload_state" where
  "handleUpload parse resp st =
     (case file st of
        None \<Rightarrow> st
      | Some f \<Rightarrow> finish_upload (receive parse resp (begin_upload st)))"

subsection \<open>The frames of a stream\<close>

text \<open>
  The complete frames of a text: the pieces before each blank line. What follows the last
  blank line stays in the buffer and is never handled.
\<close>

definition frames_of :: "string \<Rightarrow> string list" where
  "frames_of text = butlast (js_split frame_end text)"

text \<open>
  A state with a file selected after a finished session, and a parser that knows three
  payloads: a failed result, a step event and a second failed result. Every other text
  is a syntax error for it.
\<close>

definition sample_state :: upload_state where
  "sample_state = \<lparr>file = Some (File ''invoice.png''), saveToDb = False, isLoading = False,
     result = JObj [(''success'', JBool True), (''data'', JNull)],
     steps = [\<lparr>step_id = JStr ''save'', label = JStr ''Saving to database'',
               status = JStr ''complete'', message = JUndef\<rparr>],
     processingComplete = True, showProcessingModal = False, editedData = JNull,
     statsRequests = 1, consoleErrors = 0\<rparr>"

definition failure_text :: string where
  "failure_text = ''{\"type\":\"result\",\"success\":false,\"error\":{\"code\":\"ERR_EXTRACT\"}}''"

definition failure_value :: jv where
  "failure_value = JObj [(''type'', JStr ''result''), (''success'', JBool False),
                         (''error'', JObj [(''code'', JStr ''ERR_EXTRACT'')])]"

definition step_text :: string where
  "step_text = ''{\"step\":\"save\",\"status\":\"active\"}''"

definition step_value :: jv where
  "step_value = JObj [(''step'', JStr ''save''), (''status'', JStr ''active'')]"

definition second_text :: string where
  "second_text = ''{\"type\":\"result\",\"success\":false,\"error\":{\"code\":\"ERR_LATE\"}}''"

definition second_value :: jv where
  "second_value = JObj [(''type'', JStr ''result''), (''success'', JBool False),
                        (''error'', JObj [(''code'', JStr ''ERR_LATE'')])]"

definition sample_parse :: "string \<Rightarrow> jv option" where
  "sample_parse s =
     (if s = failure_text then Some failure_value
      else if s = step_text then Some step_value
      else if s = second_text then Some second_value
      else None)"

definition sse :: "string \<Rightarrow> string" where
  "sse payload = ''data: '' @ payload @ frame_end"

text \<open>
  The value \<^verbatim>\<open>setResult\<close> receives for a result event: both branches of
  \<^verbatim>\<open>if (data.success)\<close> call it first.
\<close>

definition result_of :: "jv \<Rightarrow> jv" where
  "result_of d =
     (if jtruthy (jprop d ''success'') then JObj [(''success'', JBool True), (''data'', jprop d ''data'')]
      else JObj [(''success'', JBool False), (''error'', jprop d ''error'')])"

definition is_result_event :: "jv \<Rightarrow> bool" where
  "is_result_event d = (d \<noteq> JUndef \<and> d \<noteq> JNull \<and> strict_eq (jprop d ''type'') (JStr ''result''))"

text \<open>A frame that the loop takes as a result event.\<close>

definition is_result_frame :: "(string \<Rightarrow> jv option) \<Rightarrow> string \<Rightarrow> bool" where
  "is_result_frame parse line =
     (starts_with line ''data: '' \<and>
      (case parse (drop 6 line) of None \<Rightarrow> False | Some d \<Rightarrow> is_result_event d))"

section \<open>Facts about rounding\<close>

lemma ilog2_bounds:
  assumes "0 < a"
  shows "2 powi (ilog2 a) \<le> a \<and> a < 2 powi (ilog2 a + 1)"
proof -
  obtain p q where pq: "quotient_of a = (p, q)" by (cases "quotient_of a")
  have q: "0 < q" using pq quotient_of_denom_pos by blast
  have a: "a = of_int p / of_int q" using pq quotient_of_div by blast
  have p: "0 < p" using assms q a by (simp add: zero_less_divide_iff)
  define bp where "bp = bitlen p"
  define bq where "bq = bitlen q"
  have bp: "2 ^ nat (bp - 1) \<le> p" "p < 2 ^ nat bp"
    using bitlen_bounds[OF p] by (auto simp: bp_def)
  have bq: "2 ^ nat (bq - 1) \<le> q" "q < 2 ^ nat bq"
    using bitlen_bounds[OF q] by (auto simp: bq_def)
  have bp1: "1 \<le> bp"
    using p bitlen_eq_zero_iff[of p] bitlen_nonneg[of p] by (auto simp: bp_def)
  have bq1: "1 \<le> bq"
    using q bitlen_eq_zero_iff[of q] bitlen_nonneg[of q] by (auto simp: bq_def)
  have P1: "(2::rat) powi (bp - 1) \<le> of_int p"
  proof -
    have "rat_of_int (2 ^ nat (bp - 1)) \<le> of_int p" using bp(1) by (simp only: of_int_le_iff)
    thus ?thesis using bp1 by (simp add: power_int_def)
  qed
  have P2: "of_int p < (2::rat) powi bp"
  proof -
    have "rat_of_int p < of_int (2 ^ nat bp)" using bp(2) by (simp only: of_int_less_iff)
    thus ?thesis using bp1 by (simp add: power_int_def)
  qed
  have Q1: "(2::rat) powi (bq - 1) \<le> of_int q"
  proof -
    have "rat_of_int (2 ^ nat (bq - 1)) \<le> of_int q" using bq(1) by (simp only: of_int_le_iff)
    thus ?thesis using bq1 by (simp add: power_int_def)
  qed
  have Q2: "of_int q < (2::rat) powi bq"
  proof -
    have "rat_of_int q < of_int (2 ^ nat bq)" using bq(2) by (simp only: of_int_less_iff)
    thus ?thesis using bq1 by (simp add: power_int_def)
  qed
  have qpos: "(0::rat) < of_int q" using q by simp
  have lo: "(2::rat) powi (bp - bq - 1) \<le> a"
  proof -
    have "(2::rat) powi (bp - bq - 1) * of_int q \<le> 2 powi (bp - bq - 1) * 2 powi bq"
      using Q2 by (intro mult_left_mono) auto
    also have "\<dots> = 2 powi (bp - 1)" by (simp flip: power_int_add)
    also have "\<dots> \<le> of_int p" by (rule P1)
    finally show ?thesis using qpos by (simp add: a pos_le_divide_eq)
  qed
  have hi: "a < (2::rat) powi (bp - bq + 1)"
  proof -
    have "of_int p < (2::rat) powi bp" by (rule P2)
    also have "\<dots> = 2 powi (bp - bq + 1) * 2 powi (bq - 1)" by (simp flip: power_int_add)
    also have "\<dots> \<le> 2 powi (bp - bq + 1) * of_int q"
      using Q1 by (intro mult_left_mono) auto
    finally show ?thesis using qpos by (simp add: a pos_divide_less_eq)
  qed
  have il: "ilog2 a = (if 2 powi (bp - bq) \<le> a then bp - bq else bp - bq - 1)"
    by (simp add: ilog2_def pq bp_def bq_def Let_def)
  show ?thesis
  proof (cases "2 powi (bp - bq) \<le> a")
    case True
    then show ?thesis using hi by (simp add: il)
  next
    case False
    then show ?thesis using lo by (simp add: il)
  qed
qed

lemma ilog2_nonneg:
  assumes "1 \<le> x"
  shows "0 \<le> ilog2 x"
proof (rule ccontr)
  assume "\<not> 0 \<le> ilog2 x"
  hence "ilog2 x + 1 \<le> 0" by simp
  hence "(2::rat) powi (ilog2 x + 1) \<le> 2 powi 0" by (intro power_int_increasing) auto
  moreover have "x < 2 powi (ilog2 x + 1)" using ilog2_bounds[of x] assms by simp
  ultimately show False using assms by simp
qed

lemma round_even_of_int: "round_even (of_int k) = k"
  by (simp add: round_even_def)

lemma fl_minus: "fl (- x) = js_neg (fl x)"
  by (cases "fl_pos x"; cases "fl_pos (- x)") (auto simp: fl_def)

text \<open>Integers up to \<open>2^53\<close> are binary64 values: rounding leaves them alone.\<close>

lemma fl_int_pos:
  assumes "0 < k" "k \<le> 2 ^ 53"
  shows "fl (of_int k) = Fin (of_int k)"
proof -
  define a :: rat where "a = of_int k"
  have a1: "1 \<le> a" using assms(1) by (simp add: a_def)
  have apos: "0 < a" using a1 by simp
  have a53: "a \<le> 2 ^ 53"
  proof -
    have "rat_of_int k \<le> of_int (2 ^ 53)" using assms(2) by (simp only: of_int_le_iff)
    thus ?thesis by (simp add: a_def)
  qed
  define e where "e = ilog2 a"
  have b: "2 powi e \<le> a" using ilog2_bounds[OF apos] by (auto simp: e_def)
  have e0: "0 \<le> e" unfolding e_def using a1 by (rule ilog2_nonneg)
  have e53: "e \<le> 53"
  proof (rule ccontr)
    assume "\<not> e \<le> 53"
    hence "54 \<le> e" by simp
    hence "(2::rat) powi 54 \<le> 2 powi e" by (intro power_int_increasing) auto
    thus False using b a53 by simp
  qed
  have emax: "max (ilog2 a) (- 1022) = e" using e0 by (simp add: e_def)
  have ne: "\<not> 1024 \<le> e" "e \<noteq> 1023" using e53 by auto
  have fla: "fl a = Fin (of_int (round_even (a / 2 powi (e - 52))) * 2 powi (e - 52))"
    using apos ne unfolding fl_def fl_pos_def Let_def emax by simp
  have "of_int (round_even (a / 2 powi (e - 52))) * 2 powi (e - 52) = a"
  proof (cases "e = 53")
    case True
    hence "(2::rat) ^ 53 \<le> a" using b by simp
    hence a': "a = 2 ^ 53" using a53 by simp
    have "a / 2 powi (e - 52) = of_int (2 ^ 52)" by (simp add: a' True)
    hence "round_even (a / 2 powi (e - 52)) = 2 ^ 52" by (simp only: round_even_of_int)
    thus ?thesis by (simp add: a' True)
  next
    case False
    hence e52: "e \<le> 52" using e53 by simp
    define j where "j = nat (52 - e)"
    have q: "(2::rat) powi (e - 52) = 1 / 2 ^ j" using e52
      by (simp add: j_def power_int_def inverse_eq_divide power_one_over)
    have "a / 2 powi (e - 52) = of_int (k * 2 ^ j)" by (simp add: q a_def)
    hence "round_even (a / 2 powi (e - 52)) = k * 2 ^ j" by (simp only: round_even_of_int)
    thus ?thesis by (simp add: q a_def)
  qed
  thus ?thesis using fla by (simp add: a_def)
qed

lemma fl_int:
  assumes "\<bar>k\<bar> \<le> 2 ^ 53"
  shows "fl (of_int k) = Fin (of_int k)"
proof -
  consider "k = 0" | "0 < k" | "k < 0" by linarith
  then show ?thesis
  proof cases
    case 1
    then show ?thesis by (simp add: fl_def)
  next
    case 2
    then show ?thesis using assms fl_int_pos[of k] by simp
  next
    case 3
    hence "fl (of_int (- k)) = Fin (of_int (- k))" using assms fl_int_pos[of "- k"] by simp
    hence "js_neg (fl (of_int k)) = Fin (- of_int k)" by (simp add: fl_minus)
    thus ?thesis by (cases "fl (rat_of_int k)") auto
  qed
qed

lemma fl_numeral: "numeral w \<le> (2::int) ^ 53 \<Longrightarrow> fl (numeral w) = Fin (numeral w)"
  using fl_int[of "numeral w"] by simp

lemma fl_one: "fl 1 = Fin 1"
  using fl_int[of 1] by simp

lemma fl_above_2_53: "fl (2 ^ 53 + 1) = Fin (2 ^ 53)"
  by code_simp

section \<open>The page number stays at least 1\<close>

lemma click_page_ok:
  assumes "page_ok p"
  shows "page_ok (click p b)"
proof -
  obtain k :: int where k: "p = Fin (of_int k)" "1 \<le> k" "k \<le> 2 ^ 53"
    using assms by (auto simp: page_ok_def)
  show ?thesis
  proof (cases b)
    case Previous
    have "fl (of_int (k - 1)) = Fin (of_int (k - 1))" using k by (intro fl_int) simp
    hence "js_sub p (Fin 1) = Fin (of_int (k - 1))" by (simp add: js_sub_def k)
    hence "click p b = Fin (of_int (max 1 (k - 1)))"
      by (simp add: Previous js_max_def max_def)
    moreover have "1 \<le> max 1 (k - 1)" "max 1 (k - 1) \<le> 2 ^ 53" using k by auto
    ultimately show ?thesis unfolding page_ok_def by blast
  next
    case Next
    show ?thesis
    proof (cases "k = 2 ^ 53")
      case True
      have "click p b = Fin (of_int (2 ^ 53))" using fl_above_2_53 by (simp add: Next k True)
      thus ?thesis unfolding page_ok_def by (intro exI[of _ "2 ^ 53"]) simp
    next
      case False
      have "fl (of_int (k + 1)) = Fin (of_int (k + 1))" using k False by (intro fl_int) simp
      hence "click p b = Fin (of_int (k + 1))" by (simp add: Next k)
      moreover have "1 \<le> k + 1" "k + 1 \<le> 2 ^ 53" using k False by auto
      ultimately show ?thesis unfolding page_ok_def by blast
    qed
  qed
qed

lemma foldl_click_page_ok: "page_ok p \<Longrightarrow> page_ok (foldl click p bs)"
  by (induction bs arbitrary: p) (simp_all add: click_page_ok)

section \<open>Facts about decimal text and paths\<close>

lemma digit_char_cases:
  "d < 10 \<Longrightarrow> d = 0 \<or> d = 1 \<or> d = 2 \<or> d = 3 \<or> d = 4 \<or> d = 5 \<or> d = 6 \<or> d = 7 \<or> d = 8 \<or> d = (9::nat)"
  by arith

lemma digit_val_digit_char: "d < 10 \<Longrightarrow> digit_val 10 (digit_char d) = Some d"
  using digit_char_cases[of d] by (auto simp: digit_val_def digit_char_def)

lemma digit_val_hex_digit_char: "d < 10 \<Longrightarrow> digit_val 16 (digit_char d) = Some d"
  using digit_char_cases[of d] by (auto simp: digit_val_def digit_char_def)

lemma digit_char_not_special:
  "d < 10 \<Longrightarrow> digit_char d \<noteq> CHR ''.'' \<and> \<not> is_space (digit_char d)
     \<and> digit_char d \<noteq> CHR ''-'' \<and> digit_char d \<noteq> CHR ''+''
     \<and> digit_char d \<noteq> CHR ''x'' \<and> digit_char d \<noteq> CHR ''X''"
  using digit_char_cases[of d] by (auto simp: digit_char_def is_space_def)

lemma digit_char_zero: "d < 10 \<Longrightarrow> digit_char d = CHR ''0'' \<longleftrightarrow> d = 0"
  using digit_char_cases[of d] by (auto simp: digit_char_def)

lemma show_nat_digits: "digit_string (show_nat n)"
proof (induction n rule: show_nat.induct)
  case (1 n)
  show ?case
  proof (cases "n < 10")
    case True
    then show ?thesis by (subst show_nat.simps) (auto simp: digit_string_def)
  next
    case False
    have "\<exists>d<10. digit_char (n mod 10) = digit_char d"
      by (intro exI[of _ "n mod 10"]) simp
    with False 1 show ?thesis
      by (subst show_nat.simps) (auto simp: digit_string_def)
  qed
qed

lemma show_nat_nonempty: "show_nat n \<noteq> []"
  by (subst show_nat.simps) simp

lemma show_nat_hd: "hd (show_nat n) = CHR ''0'' \<longleftrightarrow> n = 0"
proof (induction n rule: show_nat.induct)
  case (1 n)
  show ?case
  proof (cases "n < 10")
    case True
    then show ?thesis by (subst show_nat.simps) (simp add: digit_char_zero)
  next
    case False
    hence "n div 10 \<noteq> 0" by simp
    with False 1 show ?thesis
      by (subst show_nat.simps) (simp add: show_nat_nonempty)
  qed
qed

lemma digits_prefix_append:
  "digit_string s \<Longrightarrow> digits_prefix 10 (s @ t) = digits_prefix 10 s @ digits_prefix 10 t"
  by (induction s) (auto simp: digit_string_def digit_val_digit_char)

lemma digits_prefix_length: "digit_string s \<Longrightarrow> length (digits_prefix 10 s) = length s"
  by (induction s) (auto simp: digit_string_def digit_val_digit_char)

lemma digits_value_snoc: "digits_value r (ds @ [d]) = digits_value r ds * r + d"
  by (simp add: digits_value_def)

lemma digits_value_show_nat: "digits_value 10 (digits_prefix 10 (show_nat n)) = n"
proof (induction n rule: show_nat.induct)
  case (1 n)
  show ?case
  proof (cases "n < 10")
    case True
    then show ?thesis
      by (subst show_nat.simps) (simp add: digit_val_digit_char digits_value_def)
  next
    case False
    have "n mod 10 < 10" by simp
    hence dv: "digits_prefix 10 [digit_char (n mod 10)] = [n mod 10]"
      by (simp add: digit_val_digit_char)
    have "digits_prefix 10 (show_nat (n div 10) @ [digit_char (n mod 10)])
            = digits_prefix 10 (show_nat (n div 10)) @ [n mod 10]"
      using show_nat_digits[of "n div 10"] by (simp only: digits_prefix_append dv)
    hence "digits_value 10 (digits_prefix 10 (show_nat (n div 10) @ [digit_char (n mod 10)])) = n"
      using 1[OF False] by (simp only: digits_value_snoc) simp
    with False show ?thesis by (subst show_nat.simps) simp
  qed
qed

lemma show_nat_no_dot: "CHR ''.'' \<notin> set (show_nat n)"
proof
  assume "CHR ''.'' \<in> set (show_nat n)"
  then obtain d where "d < 10" "CHR ''.'' = digit_char d"
    using show_nat_digits[of n] by (auto simp: digit_string_def)
  thus False using digit_char_not_special[of d] by simp
qed

lemma array_index_show_nat:
  assumes "n < 4294967295"
  shows "array_index (show_nat n) = Some n"
proof -
  have "show_nat n = ''0'' \<or> hd (show_nat n) \<noteq> CHR ''0''"
  proof (cases "n = 0")
    case True
    then show ?thesis by (subst show_nat.simps) (simp add: digit_char_def)
  next
    case False
    then show ?thesis by (simp add: show_nat_hd)
  qed
  moreover have "length (digits_prefix 10 (show_nat n)) = length (show_nat n)"
    using show_nat_digits[of n] by (rule digits_prefix_length)
  moreover have "digits_prefix 10 (show_nat n) \<noteq> []"
    using calculation(2) show_nat_nonempty[of n] by auto
  ultimately show ?thesis using assms show_nat_nonempty[of n]
    by (simp add: array_index_def digits_value_show_nat)
qed

lemma split_no_dot: "CHR ''.'' \<notin> set s \<Longrightarrow> js_split ''.'' s = [s]"
  by (induction s) (auto simp: starts_with_def)

lemma split_dot:
  "CHR ''.'' \<notin> set s \<Longrightarrow> js_split ''.'' (s @ CHR ''.'' # t) = s # js_split ''.'' t"
  by (induction s) (auto simp: starts_with_def)

lemma parseInt_show_nat:
  assumes "n \<le> 2 ^ 53"
  shows "parseInt (show_nat n) = Fin (of_nat n)"
proof -
  obtain c cs where s: "show_nat n = c # cs" using show_nat_nonempty[of n] by (cases "show_nat n") auto
  have ds: "digit_string (c # cs)" using show_nat_digits[of n] s by simp
  then obtain d where d: "d < 10" "c = digit_char d" by (auto simp: digit_string_def)
  have sp: "dropWhile is_space (c # cs) = c # cs" using d digit_char_not_special[of d] by simp
  have sg: "\<not> starts_with (c # cs) ''-''" "\<not> starts_with (c # cs) ''+''"
    using d digit_char_not_special[of d] by (auto simp: starts_with_def)
  have hx: "\<not> starts_with (c # cs) ''0x''" "\<not> starts_with (c # cs) ''0X''"
  proof -
    have "cs \<noteq> [] \<Longrightarrow> hd cs \<noteq> CHR ''x'' \<and> hd cs \<noteq> CHR ''X''"
      using ds digit_char_not_special by (cases cs) (auto simp: digit_string_def)
    thus "\<not> starts_with (c # cs) ''0x''" "\<not> starts_with (c # cs) ''0X''"
      by (cases cs; auto simp: starts_with_def)+
  qed
  have ne: "digits_prefix 10 (c # cs) \<noteq> []" using d by (simp add: digit_val_digit_char)
  have v: "digits_value 10 (digits_prefix 10 (c # cs)) = n"
    using digits_value_show_nat[of n] s by simp
  have "int n \<le> 2 ^ 53" using assms by (metis of_nat_le_iff of_nat_numeral of_nat_power)
  hence "fl (of_int (int n)) = Fin (of_int (int n))" by (intro fl_int) simp
  hence "fl (of_nat n) = Fin (of_nat n)" by simp
  thus ?thesis using sp sg hx ne v unfolding parseInt_def s Let_def by simp
qed

lemma number_key_nat:
  "n < 10 ^ 21 \<Longrightarrow> number_key (Fin (of_nat n)) = ret (show_nat n)"
proof -
  assume "n < 10 ^ 21"
  hence "rat_of_nat n < of_nat (10 ^ 21)" by (simp only: of_nat_less_iff)
  thus ?thesis by (simp add: number_key_def)
qed

section \<open>Facts about heap accesses\<close>

lemma get_prop_obj:
  "a < length h \<Longrightarrow> h ! a = Obj ps \<Longrightarrow> get_prop (VRef a) k h = (Inr (own_prop ps k), h)"
  by (simp add: get_prop_def ret_def)

lemma get_prop_arr:
  "a < length h \<Longrightarrow> h ! a = Arr xs \<Longrightarrow> get_prop (VRef a) k h = (Inr (array_get xs k), h)"
  by (simp add: get_prop_def ret_def)

lemma set_prop_obj:
  "a < length h \<Longrightarrow> h ! a = Obj ps \<Longrightarrow> k \<noteq> ''__proto__'' \<Longrightarrow>
   set_prop (VRef a) k v h = (Inr (), h[a := Obj (AList.update k v ps)])"
  by (simp add: set_prop_def ret_def)

lemma set_prop_proto:
  "a < length h \<Longrightarrow> h ! a = Obj ps \<Longrightarrow> map_of ps ''__proto__'' = None \<Longrightarrow>
   set_prop (VRef a) ''__proto__'' v h
     = (case v of VRef _ \<Rightarrow> (Inl Unmodelled, h) | VNull \<Rightarrow> (Inl Unmodelled, h)
        | _ \<Rightarrow> (Inr (), h))"
  by (simp add: set_prop_def ret_def throw_def split: jsval.splits)

lemma own_prop_update: "own_prop (AList.update k v ps) k' = (if k' = k then v else own_prop ps k')"
  by (simp add: own_prop_def update_conv')

lemma array_get_index:
  "k < length is \<Longrightarrow> length is < 4294967295 \<Longrightarrow>
   array_get (map (\<lambda>i. Some (VRef i)) is) (show_nat k) = VRef (is ! k)"
proof -
  assume k: "k < length is" and l: "length is < 4294967295"
  have "show_nat k \<noteq> ''length''"
  proof
    assume "show_nat k = ''length''"
    hence "CHR ''l'' \<in> set (show_nat k)" by simp
    then obtain d where "d < 10" "CHR ''l'' = digit_char d"
      using show_nat_digits[of k] by (auto simp: digit_string_def)
    thus False using digit_char_cases[of d] by (auto simp: digit_char_def)
  qed
  moreover have "array_index (show_nat k) = Some k" using k l by (intro array_index_show_nat) simp
  ultimately show ?thesis using k by (simp add: array_get_def)
qed

lemma to_number_num: "to_number (VNum n) = ret n"
  by (simp add: to_number_def)

lemma js_times_num: "js_times (VNum a) (VNum b) h = (Inr (VNum (js_mul a b)), h)"
  by (simp add: js_times_def to_number_num bind_def ret_def)

lemma js_divide_num: "js_divide (VNum a) (VNum b) h = (Inr (VNum (js_div a b)), h)"
  by (simp add: js_divide_def to_number_num bind_def ret_def)

lemma js_plus_num: "js_plus (VNum a) (VNum b) h = (Inr (VNum (js_add a b)), h)"
  by (simp add: js_plus_def to_number_num bind_def ret_def)

lemma is_number_the_num: "is_number v \<Longrightarrow> v = VNum (the_num v)"
  by (cases v) (auto simp: is_number_def the_num_def)

lemma reduce_totals_sum:
  assumes "\<forall>j \<in> set js. j < length h \<and> (\<exists>ps. h ! j = Obj ps \<and> is_number (own_prop ps ''total''))"
  shows "reduce_totals (map (\<lambda>j. Some (VRef j)) js) (VNum acc) h
           = (Inr (VNum (foldl js_add acc (map (\<lambda>j. the_num (own_prop (props h j) ''total'')) js))), h)"
  using assms
proof (induction js arbitrary: acc)
  case Nil
  then show ?case by (simp add: ret_def)
next
  case (Cons j js)
  then obtain ps where ps: "j < length h" "h ! j = Obj ps" "is_number (own_prop ps ''total'')"
    by auto
  have t: "own_prop ps ''total'' = VNum (the_num (own_prop ps ''total''))"
    using ps(3) by (rule is_number_the_num)
  have g: "get_prop (VRef j) ''total'' h = (Inr (VNum (the_num (own_prop ps ''total''))), h)"
    using get_prop_obj[OF ps(1,2), of "''total''"] t by simp
  have p: "props h j = ps" using ps(2) by (simp add: props_def)
  show ?case using Cons.IH[of "js_add acc (the_num (own_prop ps ''total''))"] Cons.prems
    by (simp add: bind_def g js_plus_num p)
qed

section \<open>The recomputation, step by step\<close>

lemma recompute_line:
  assumes n: "n < length h" "h ! n = Obj pa"
      and pa: "own_prop pa ''line_items'' = VRef la" "own_prop pa ''totals'' = VRef ta"
      and la: "la < length h" "h ! la = Arr (map (\<lambda>i. Some (VRef i)) ias)"
      and len: "length ias < 4294967295"
      and i: "i < length ias"
      and ia: "ias ! i < length h" "h ! (ias ! i) = Obj pit"
      and qp: "own_prop pit ''quantity'' = VNum q" "own_prop pit ''unit_price'' = VNum p"
      and others: "\<forall>j \<in> set ias. j < length h \<and> (j \<noteq> ias ! i \<longrightarrow>
                      (\<exists>ps. h ! j = Obj ps \<and> is_number (own_prop ps ''total'')))"
      and ta: "ta < length h" "h ! ta = Obj pt"
      and pt: "own_prop pt ''tax_rate'' = VNum r" "own_prop pt ''shipping'' = VNum sh"
      and dist: "distinct (n # la # ta # ias)"
      and keys: "1 < length keys" "keys ! 1 = show_nat i"
      and h3: "h3 = h[ias ! i := Obj (AList.update ''total'' (VNum (js_mul q p)) pit)]"
      and s: "s = foldl js_add (Fin 0) (map (\<lambda>j. the_num (own_prop (props h3 j) ''total'')) ias)"
      and tx: "tx = js_mul s (js_div r (Fin 100))"
  shows "recompute (VRef n) keys h =
           (Inr (), h3[ta := Obj (AList.update ''total'' (VNum (js_add (js_add s tx) sh))
                                 (AList.update ''tax_amount'' (VNum tx)
                                 (AList.update ''subtotal'' (VNum s) pt)))])"
proof -
  define ia where "ia = ias ! i"
  have iam: "ia \<in> set ias" using i by (simp add: ia_def)
  have ne: "n \<noteq> la" "n \<noteq> ta" "n \<noteq> ia" "la \<noteq> ta" "la \<noteq> ia" "ta \<noteq> ia"
    using dist iam by auto
  have i53: "i \<le> 2 ^ 53" using i len by simp
  have i21: "i < 10 ^ 21" using i len by simp
  have key: "number_key (parseInt (show_nat i)) = ret (show_nat i)"
    by (simp add: parseInt_show_nat[OF i53] number_key_nat[OF i21])
  have idx: "array_get (map (\<lambda>i. Some (VRef i)) ias) (show_nat i) = VRef ia"
    using array_get_index[OF i len] by (simp add: ia_def)
  have l3: "length h3 = length h" by (simp add: h3)
  have h3n: "h3 ! n = Obj pa" using ne n by (simp add: h3 flip: ia_def)
  have h3la: "h3 ! la = Arr (map (\<lambda>i. Some (VRef i)) ias)" using ne la by (simp add: h3 flip: ia_def)
  have h3ta: "h3 ! ta = Obj pt" using ne ta by (simp add: h3 flip: ia_def)
  have red: "reduce_totals (map (\<lambda>j. Some (VRef j)) ias) (VNum (Fin 0)) h3 = (Inr (VNum s), h3)"
    unfolding s
  proof (rule reduce_totals_sum, rule ballI)
    fix j assume j: "j \<in> set ias"
    show "j < length h3 \<and> (\<exists>ps. h3 ! j = Obj ps \<and> is_number (own_prop ps ''total''))"
    proof (cases "j = ia")
      case True
      then show ?thesis using ia by (simp add: h3 own_prop_update is_number_def flip: ia_def)
    next
      case False
      then show ?thesis using others j by (auto simp: h3 simp flip: ia_def)
    qed
  qed
  define h4 where "h4 = h3[ta := Obj (AList.update ''subtotal'' (VNum s) pt)]"
  define h5 where "h5 = h3[ta := Obj (AList.update ''tax_amount'' (VNum tx) (AList.update ''subtotal'' (VNum s) pt))]"
  have h4n: "h4 ! n = Obj pa" "length h4 = length h" using ne h3n by (auto simp: h4_def l3)
  have h4ta: "h4 ! ta = Obj (AList.update ''subtotal'' (VNum s) pt)" using ta by (simp add: h4_def l3)
  have h5n: "h5 ! n = Obj pa" "length h5 = length h" using ne h3n by (auto simp: h5_def l3)
  have h5ta: "h5 ! ta = Obj (AList.update ''tax_amount'' (VNum tx) (AList.update ''subtotal'' (VNum s) pt))"
    using ta by (simp add: h5_def l3)
  have step1: "bind (number_key (if 1 < length keys then parseInt (keys ! 1) else NaN)) f h = f (show_nat i) h" for f :: "string \<Rightarrow> unit js"
    using keys key by (simp add: bind_def ret_def)
  have gn: "get_prop (VRef n) k h = (Inr (own_prop pa k), h)" for k
    using n by (rule get_prop_obj)
  have gla: "get_prop (VRef la) (show_nat i) h = (Inr (VRef ia), h)"
    using get_prop_arr[OF la, of "show_nat i"] idx by simp
  have gia: "get_prop (VRef ia) k h = (Inr (own_prop pit k), h)" for k
    using ia unfolding ia_def by (rule get_prop_obj)
  have sia: "set_prop (VRef ia) ''total'' (VNum (js_mul q p)) h = (Inr (), h3)"
    using set_prop_obj[OF ia, of "''total''" "VNum (js_mul q p)"] by (simp add: h3 ia_def)
  have g3n: "get_prop (VRef n) k h3 = (Inr (own_prop pa k), h3)" for k
    using n h3n by (intro get_prop_obj) (simp_all add: l3)
  have r3: "line_items_reduce (VRef la) h3 = (Inr (VNum s), h3)"
    using la h3la red by (simp add: line_items_reduce_def l3)
  have s3: "set_prop (VRef ta) ''subtotal'' (VNum s) h3 = (Inr (), h4)"
    using set_prop_obj[of ta h3 pt "''subtotal''" "VNum s"] ta h3ta by (simp add: l3 h4_def)
  have g4n: "get_prop (VRef n) k h4 = (Inr (own_prop pa k), h4)" for k
    using n h4n by (intro get_prop_obj) simp_all
  have g4ta: "get_prop (VRef ta) k h4 = (Inr (own_prop (AList.update ''subtotal'' (VNum s) pt) k), h4)" for k
    using ta h4n h4ta by (intro get_prop_obj) simp_all
  have s4: "set_prop (VRef ta) ''tax_amount'' (VNum tx) h4 = (Inr (), h5)"
    using set_prop_obj[of ta h4 _ "''tax_amount''" "VNum tx"] ta h4ta h4n
    by (simp add: h5_def h4_def)
  have g5n: "get_prop (VRef n) k h5 = (Inr (own_prop pa k), h5)" for k
    using n h5n by (intro get_prop_obj) simp_all
  have g5ta: "get_prop (VRef ta) k h5 = (Inr (own_prop (AList.update ''tax_amount'' (VNum tx) (AList.update ''subtotal'' (VNum s) pt)) k), h5)" for k
    using ta h5n h5ta by (intro get_prop_obj) simp_all
  have s5: "set_prop (VRef ta) ''total'' v h5 = (Inr (), h3[ta := Obj (AList.update ''total'' v
                                 (AList.update ''tax_amount'' (VNum tx)
                                 (AList.update ''subtotal'' (VNum s) pt)))])" for v
    using set_prop_obj[of ta h5 _ "''total''" v] ta h5ta h5n
    by (simp add: h5_def)
  show ?thesis
    unfolding recompute_def step1
    by (simp add: bind_def gn pa gla gia qp js_times_num sia g3n r3 s3 g4n g4ta own_prop_update pt
        js_divide_num tx[symmetric] s4 g5n g5ta js_plus_num s5)
qed

section \<open>An edit of a line item field\<close>

lemma props_obj: "h ! a = Obj ps \<Longrightarrow> props h a = ps"
  by (simp add: props_def)

lemma is_object_props: "is_object h a \<Longrightarrow> a < length h \<and> h ! a = Obj (props h a)"
  by (cases "h ! a") (auto simp: is_object_def props_def)

lemma has_numbers_field:
  "has_numbers h a ks \<Longrightarrow> k \<in> set ks \<Longrightarrow> own_prop (props h a) k = VNum (the_num (own_prop (props h a) k))"
  by (intro is_number_the_num) (auto simp: has_numbers_def list_all_iff)

lemma split_line_path:
  "CHR ''.'' \<notin> set f \<Longrightarrow>
   js_split ''.'' (''line_items.'' @ show_nat i @ ''.'' @ f) = [''line_items'', show_nat i, f]"
proof -
  assume f: "CHR ''.'' \<notin> set f"
  have "''line_items.'' @ show_nat i @ ''.'' @ f = ''line_items'' @ CHR ''.'' # (show_nat i @ CHR ''.'' # f)"
    by simp
  moreover have "CHR ''.'' \<notin> set ''line_items''" by simp
  ultimately have "js_split ''.'' (''line_items.'' @ show_nat i @ ''.'' @ f)
      = ''line_items'' # js_split ''.'' (show_nat i @ CHR ''.'' # f)"
    using split_dot[of "''line_items''" "show_nat i @ CHR ''.'' # f"] by simp
  thus ?thesis using f by (simp add: split_dot[OF show_nat_no_dot] split_no_dot)
qed

lemma includes_line_path: "js_includes (''line_items.'' @ t) ''line_items''"
  by (simp add: starts_with_def)

lemma edit_line_item:
  assumes shape: "invoice_shape h a ha la ias ta"
      and i: "i < length ias"
      and f: "CHR ''.'' \<notin> set f"
      and pit: "pit = AList.update f x (props h (ias ! i))"
      and q: "own_prop pit ''quantity'' = VNum q"
      and p: "own_prop pit ''unit_price'' = VNum p"
      and fp: "f \<noteq> ''__proto__''"
  shows "\<exists>h'. handleEditField (VRef a) (''line_items.'' @ show_nat i @ ''.'' @ f) x h
               = (Inr (VRef (length h)), h')
          \<and> length h' = Suc (length h)
          \<and> h' ! length h = h ! a
          \<and> h' ! la = h ! la
          \<and> h' ! ha = h ! ha
          \<and> h' ! a = h ! a
          \<and> (\<forall>k < length ias. k \<noteq> i \<longrightarrow> h' ! (ias ! k) = h ! (ias ! k))
          \<and> h' ! (ias ! i) = Obj (AList.update ''total'' (VNum (js_mul q p)) pit)
          \<and> (\<exists>s tx. s = foldl js_add (Fin 0) (map (\<lambda>j. the_num (own_prop (props h' j) ''total'')) ias)
                 \<and> tx = js_mul s (js_div (the_num (own_prop (props h ta) ''tax_rate'')) (Fin 100))
                 \<and> h' ! ta = Obj (AList.update ''total''
                       (VNum (js_add (js_add s tx) (the_num (own_prop (props h ta) ''shipping''))))
                       (AList.update ''tax_amount'' (VNum tx)
                       (AList.update ''subtotal'' (VNum s) (props h ta)))))"
proof -
  define n where "n = length h"
  define ia where "ia = ias ! i"
  define pa where "pa = props h a"
  define pt where "pt = props h ta"
  define r where "r = the_num (own_prop pt ''tax_rate'')"
  define sh where "sh = the_num (own_prop pt ''shipping'')"
  define h1 where "h1 = h @ [Obj pa]"
  define h2 where "h2 = h1[ia := Obj pit]"
  define h3 where "h3 = h2[ia := Obj (AList.update ''total'' (VNum (js_mul q p)) pit)]"
  define s where "s = foldl js_add (Fin 0) (map (\<lambda>j. the_num (own_prop (props h3 j) ''total'')) ias)"
  define tx where "tx = js_mul s (js_div r (Fin 100))"
  define h6 where "h6 = h3[ta := Obj (AList.update ''total'' (VNum (js_add (js_add s tx) sh))
                                 (AList.update ''tax_amount'' (VNum tx)
                                 (AList.update ''subtotal'' (VNum s) pt)))]"
  have iam: "ia \<in> set ias" using i by (simp add: ia_def)
  have a: "a < length h" "h ! a = Obj pa"
    using shape is_object_props[of h a] by (auto simp: invoice_shape_def pa_def)
  have pa: "own_prop pa ''line_items'' = VRef la" "own_prop pa ''totals'' = VRef ta"
    using shape by (auto simp: invoice_shape_def pa_def)
  have la: "la < length h" "h ! la = Arr (map (\<lambda>i. Some (VRef i)) ias)"
    using shape by (auto simp: invoice_shape_def)
  have len: "length ias < 4294967295" using shape by (simp add: invoice_shape_def)
  have items: "\<forall>j \<in> set ias. has_numbers h j [''quantity'', ''unit_price'', ''total'']"
    using shape by (simp add: invoice_shape_def list_all_iff)
  have itemo: "\<forall>j \<in> set ias. j < length h \<and> h ! j = Obj (props h j)"
    using items is_object_props by (auto simp: has_numbers_def)
  have ia: "ia < length h" "h ! ia = Obj (props h ia)" using itemo iam by auto
  have tn: "has_numbers h ta [''subtotal'', ''tax_rate'', ''tax_amount'', ''shipping'', ''total'']"
    using shape by (simp add: invoice_shape_def)
  have ta: "ta < length h" "h ! ta = Obj pt"
    using tn is_object_props[of h ta] by (auto simp: has_numbers_def pt_def)
  have pt: "own_prop pt ''tax_rate'' = VNum r" "own_prop pt ''shipping'' = VNum sh"
    using has_numbers_field[OF tn] by (auto simp: pt_def r_def sh_def)
  have hao: "ha < length h" using shape by (auto simp: invoice_shape_def is_object_def)
  have dist: "distinct (a # ha # la # ta # ias)" using shape by (simp add: invoice_shape_def)
  have ne: "la \<noteq> ia" "ta \<noteq> ia" "la \<noteq> ta" "a \<noteq> ia" "a \<noteq> ta" "ha \<noteq> ia" "ha \<noteq> ta"
    using dist iam by auto
  have nn: "n \<noteq> ia" "n \<noteq> la" "n \<noteq> ta" "n \<noteq> ha" "n \<noteq> a" "\<forall>j \<in> set ias. n \<noteq> j"
    using ia la ta hao a itemo by (auto simp: n_def)
  have l1: "length h1 = Suc n" by (simp add: h1_def n_def)
  have h1old: "j < length h \<Longrightarrow> h1 ! j = h ! j" for j by (simp add: h1_def nth_append)
  have h1n: "h1 ! n = Obj pa" by (simp add: h1_def n_def)
  have sp: "spread (VRef a) h = (Inr (VRef n), h1)"
    using a by (simp add: spread_def ret_def h1_def n_def)
  have keys: "js_split ''.'' (''line_items.'' @ show_nat i @ ''.'' @ f) = [''line_items'', show_nat i, f]"
    using f by (rule split_line_path)
  have idx: "array_get (map (\<lambda>i. Some (VRef i)) ias) (show_nat i) = VRef ia"
    using array_get_index[OF i len] by (simp add: ia_def)
  have w: "walk (VRef n) [''line_items'', show_nat i] h1 = (Inr (VRef ia), h1)"
  proof -
    have "get_prop (VRef n) ''line_items'' h1 = (Inr (VRef la), h1)"
      using get_prop_obj[of n h1 pa "''line_items''"] l1 h1n pa by simp
    moreover have "get_prop (VRef la) (show_nat i) h1 = (Inr (VRef ia), h1)"
      using get_prop_arr[of la h1 _ "show_nat i"] la h1old[of la] l1 idx by (simp add: n_def)
    ultimately show ?thesis by (simp add: bind_def ret_def)
  qed
  have st: "set_prop (VRef ia) f x h1 = (Inr (), h2)"
    using set_prop_obj[of ia h1 "props h ia" f x] ia h1old[of ia] l1 fp
    by (simp add: h2_def pit ia_def n_def)
  have l2: "length h2 = Suc n" by (simp add: h2_def l1)
  have rc: "recompute (VRef n) [''line_items'', show_nat i, f] h2 = (Inr (), h6)"
    unfolding h6_def
  proof (rule recompute_line[where pa = pa and la = la and ias = ias and i = i and pit = pit
        and q = q and p = p and r = r and s = s])
    show "n < length h2" by (simp add: l2)
    show "h2 ! n = Obj pa" using nn h1n by (simp add: h2_def)
    show "own_prop pa ''line_items'' = VRef la" "own_prop pa ''totals'' = VRef ta" by (rule pa)+
    show "la < length h2" using la by (simp add: l2 n_def)
    show "h2 ! la = Arr (map (\<lambda>i. Some (VRef i)) ias)" using ne la h1old[of la] by (simp add: h2_def)
    show "length ias < 4294967295" by (rule len)
    show "i < length ias" by (rule i)
    show "ias ! i < length h2" using ia by (simp add: l2 n_def ia_def)
    show "h2 ! (ias ! i) = Obj pit" using ia by (simp add: h2_def l1 n_def flip: ia_def)
    show "own_prop pit ''quantity'' = VNum q" "own_prop pit ''unit_price'' = VNum p" by (rule q, rule p)
    show "\<forall>j\<in>set ias. j < length h2 \<and> (j \<noteq> ias ! i \<longrightarrow>
             (\<exists>ps. h2 ! j = Obj ps \<and> is_number (own_prop ps ''total'')))"
    proof
      fix j assume j: "j \<in> set ias"
      have jl: "j < length h" "h ! j = Obj (props h j)" using itemo j by auto
      have "is_number (own_prop (props h j) ''total'')"
        using items j by (auto simp: has_numbers_def)
      thus "j < length h2 \<and> (j \<noteq> ias ! i \<longrightarrow>
             (\<exists>ps. h2 ! j = Obj ps \<and> is_number (own_prop ps ''total'')))"
        using jl h1old[of j] l1 by (auto simp: l2 n_def h2_def simp flip: ia_def)
    qed
    show "ta < length h2" using ta by (simp add: l2 n_def)
    show "h2 ! ta = Obj pt" using ta ne h1old[of ta] by (simp add: h2_def)
    show "own_prop pt ''tax_rate'' = VNum r" "own_prop pt ''shipping'' = VNum sh" by (rule pt)+
    show "distinct (n # la # ta # ias)" using dist nn by auto
    show "1 < length [''line_items'', show_nat i, f]" by simp
    show "[''line_items'', show_nat i, f] ! 1 = show_nat i" by simp
    show "h3 = h2[ias ! i := Obj (AList.update ''total'' (VNum (js_mul q p)) pit)]"
      by (simp add: h3_def ia_def)
    show "s = foldl js_add (Fin 0) (map (\<lambda>j. the_num (own_prop (props h3 j) ''total'')) ias)"
      by (rule s_def)
    show "tx = js_mul s (js_div r (Fin 100))" by (rule tx_def)
  qed
  have run: "handleEditField (VRef a) (''line_items.'' @ show_nat i @ ''.'' @ f) x h = (Inr (VRef n), h6)"
  proof -
    have inc: "js_includes (''line_items.'' @ show_nat i @ ''.'' @ f) ''line_items'' = True"
      using includes_line_path[of "show_nat i @ ''.'' @ f"] by (simp only:)
    have "handleEditField (VRef a) (''line_items.'' @ show_nat i @ ''.'' @ f) x h
        = bind (spread (VRef a)) (\<lambda>updated.
          bind (walk updated [''line_items'', show_nat i]) (\<lambda>obj.
          bind (set_prop obj f x) (\<lambda>_.
          bind (recompute updated [''line_items'', show_nat i, f]) (\<lambda>_. ret updated)))) h"
      unfolding handleEditField_def keys Let_def inc
      by (simp add: truthy_def del: walk.simps)
    also have "\<dots> = (Inr (VRef n), h6)"
      by (simp add: bind_def sp w st rc ret_def del: walk.simps)
    finally show ?thesis .
  qed
  have l6: "length h6 = Suc n" by (simp add: h6_def h3_def l2)
  have h6a: "j < length h \<Longrightarrow> j \<noteq> ia \<Longrightarrow> j \<noteq> ta \<Longrightarrow> h6 ! j = h ! j" for j
    using h1old[of j] by (simp add: h6_def h3_def h2_def)
  have h6n: "h6 ! n = Obj pa" using nn h1n by (simp add: h6_def h3_def h2_def)
  have h6ia: "h6 ! ia = Obj (AList.update ''total'' (VNum (js_mul q p)) pit)"
    using ne ia by (simp add: h6_def h3_def h2_def l1 n_def)
  have h6ta: "h6 ! ta = Obj (AList.update ''total'' (VNum (js_add (js_add s tx) sh))
                                 (AList.update ''tax_amount'' (VNum tx)
                                 (AList.update ''subtotal'' (VNum s) pt)))"
    using ta by (simp add: h6_def h3_def h2_def l1 n_def)
  have others: "\<forall>k < length ias. k \<noteq> i \<longrightarrow> h6 ! (ias ! k) = h ! (ias ! k)"
  proof (intro allI impI)
    fix k assume k: "k < length ias" "k \<noteq> i"
    have "ias ! k \<in> set ias" using k by simp
    moreover have "ias ! k \<noteq> ia" using k i dist by (auto simp: ia_def nth_eq_iff_index_eq)
    moreover have "ias ! k \<noteq> ta" using dist calculation(1) by auto
    ultimately show "h6 ! (ias ! k) = h ! (ias ! k)" using itemo by (intro h6a) auto
  qed
  have s6: "s = foldl js_add (Fin 0) (map (\<lambda>j. the_num (own_prop (props h6 j) ''total'')) ias)"
  proof -
    have "\<forall>j \<in> set ias. props h6 j = props h3 j"
    proof
      fix j assume "j \<in> set ias"
      hence "j \<noteq> ta" using dist by auto
      thus "props h6 j = props h3 j" by (simp add: props_def h6_def)
    qed
    hence "map (\<lambda>j. the_num (own_prop (props h6 j) ''total'')) ias
            = map (\<lambda>j. the_num (own_prop (props h3 j) ''total'')) ias" by simp
    thus ?thesis by (simp only: s_def)
  qed
  show ?thesis
  proof (intro exI[of _ h6] conjI)
    show "handleEditField (VRef a) (''line_items.'' @ show_nat i @ ''.'' @ f) x h = (Inr (VRef (length h)), h6)"
      using run by (simp add: n_def)
    show "length h6 = Suc (length h)" using l6 by (simp add: n_def)
    show "h6 ! length h = h ! a" using h6n a by (simp add: n_def)
    show "h6 ! la = h ! la" using la ne by (intro h6a) auto
    show "h6 ! ha = h ! ha" using hao ne by (intro h6a) auto
    show "h6 ! a = h ! a" using a ne by (intro h6a) auto
    show "\<forall>k < length ias. k \<noteq> i \<longrightarrow> h6 ! (ias ! k) = h ! (ias ! k)" by (rule others)
    show "h6 ! (ias ! i) = Obj (AList.update ''total'' (VNum (js_mul q p)) pit)"
      using h6ia by (simp add: ia_def)
    show "\<exists>s tx. s = foldl js_add (Fin 0) (map (\<lambda>j. the_num (own_prop (props h6 j) ''total'')) ias)
                 \<and> tx = js_mul s (js_div (the_num (own_prop (props h ta) ''tax_rate'')) (Fin 100))
                 \<and> h6 ! ta = Obj (AList.update ''total''
                       (VNum (js_add (js_add s tx) (the_num (own_prop (props h ta) ''shipping''))))
                       (AList.update ''tax_amount'' (VNum tx)
                       (AList.update ''subtotal'' (VNum s) (props h ta))))"
      using s6 h6ta by (intro exI[of _ s] exI[of _ tx]) (simp add: tx_def r_def sh_def pt_def)
  qed
qed

section \<open>Reading the snapshot after an edit\<close>

lemma read_two:
  assumes "n < length h" "h ! n = Obj pa" "own_prop pa key = VRef b" "b < length h" "h ! b = Obj ps"
  shows "read h (VRef n) [key, g] = Some (own_prop ps g)"
proof -
  have "get_prop (VRef n) key h = (Inr (VRef b), h)"
    using get_prop_obj[OF assms(1,2), of key] assms(3) by simp
  moreover have "get_prop (VRef b) g h = (Inr (own_prop ps g), h)"
    using assms(4,5) by (rule get_prop_obj)
  ultimately show ?thesis by (simp add: read_def bind_def ret_def)
qed

lemma read_item:
  assumes "n < length h" "h ! n = Obj pa" "own_prop pa ''line_items'' = VRef la"
      and "la < length h" "h ! la = Arr (map (\<lambda>i. Some (VRef i)) ias)"
      and "length ias < 4294967295" "k < length ias"
      and "ias ! k < length h" "h ! (ias ! k) = Obj ps"
  shows "read h (VRef n) [''line_items'', show_nat k, g] = Some (own_prop ps g)"
proof -
  have "get_prop (VRef n) ''line_items'' h = (Inr (VRef la), h)"
    using get_prop_obj[OF assms(1,2), of "''line_items''"] assms(3) by simp
  moreover have "get_prop (VRef la) (show_nat k) h = (Inr (VRef (ias ! k)), h)"
    using get_prop_arr[OF assms(4,5), of "show_nat k"] array_get_index[OF assms(7,6)] by simp
  moreover have "get_prop (VRef (ias ! k)) g h = (Inr (own_prop ps g), h)"
    using assms(8,9) by (rule get_prop_obj)
  ultimately show ?thesis by (simp add: read_def bind_def ret_def)
qed

lemma shape_read_item:
  assumes "invoice_shape h a ha la ias ta" "k < length ias"
  shows "read h (VRef a) [''line_items'', show_nat k, g] = Some (own_prop (props h (ias ! k)) g)"
proof -
  have "ias ! k \<in> set ias" using assms(2) by simp
  hence "is_object h (ias ! k)"
    using assms(1) by (auto simp: invoice_shape_def list_all_iff has_numbers_def)
  hence "ias ! k < length h" "h ! (ias ! k) = Obj (props h (ias ! k))"
    using is_object_props by auto
  moreover have "a < length h" "h ! a = Obj (props h a)"
    using assms(1) is_object_props[of h a] by (auto simp: invoice_shape_def)
  ultimately show ?thesis
    using assms by (intro read_item[where pa = "props h a" and la = la and ias = ias])
      (auto simp: invoice_shape_def)
qed

lemma shape_read_totals:
  assumes "invoice_shape h a ha la ias ta"
  shows "read h (VRef a) [''totals'', g] = Some (own_prop (props h ta) g)"
proof -
  have "a < length h" "h ! a = Obj (props h a)"
    using assms is_object_props[of h a] by (auto simp: invoice_shape_def)
  moreover have "ta < length h" "h ! ta = Obj (props h ta)"
    using assms is_object_props[of h ta] by (auto simp: invoice_shape_def has_numbers_def)
  ultimately show ?thesis
    using assms by (intro read_two[where pa = "props h a" and b = ta]) (auto simp: invoice_shape_def)
qed

lemma shape_read_header:
  assumes "invoice_shape h a ha la ias ta"
  shows "read h (VRef a) [''header'', g] = Some (own_prop (props h ha) g)"
proof -
  have "a < length h" "h ! a = Obj (props h a)"
    using assms is_object_props[of h a] by (auto simp: invoice_shape_def)
  moreover have "ha < length h" "h ! ha = Obj (props h ha)"
    using assms is_object_props[of h ha] by (auto simp: invoice_shape_def)
  ultimately show ?thesis
    using assms by (intro read_two[where pa = "props h a" and b = ha]) (auto simp: invoice_shape_def)
qed

lemma shape_item_number:
  assumes "invoice_shape h a ha la ias ta" "k < length ias"
      and "g \<in> {''quantity'', ''unit_price'', ''total''}"
  shows "own_prop (props h (ias ! k)) g = VNum (the_num (own_prop (props h (ias ! k)) g))"
proof -
  have "ias ! k \<in> set ias" using assms(2) by simp
  hence "has_numbers h (ias ! k) [''quantity'', ''unit_price'', ''total'']"
    using assms(1) by (auto simp: invoice_shape_def list_all_iff)
  thus ?thesis using assms(3) by (intro has_numbers_field) auto
qed

lemma shape_totals_number:
  assumes "invoice_shape h a ha la ias ta"
      and "g \<in> {''subtotal'', ''tax_rate'', ''tax_amount'', ''shipping'', ''total''}"
  shows "own_prop (props h ta) g = VNum (the_num (own_prop (props h ta) g))"
proof -
  have "has_numbers h ta [''subtotal'', ''tax_rate'', ''tax_amount'', ''shipping'', ''total'']"
    using assms(1) by (auto simp: invoice_shape_def)
  thus ?thesis using assms(2) by (intro has_numbers_field) auto
qed

lemma read_length:
  assumes "n < length h" "h ! n = Obj pa" "own_prop pa ''line_items'' = VRef la"
      and "la < length h" "h ! la = Arr (map (\<lambda>i. Some (VRef i)) ias)"
      and "length ias < 4294967295"
  shows "read h (VRef n) [''line_items'', ''length''] = Some (VNum (Fin (of_nat (length ias))))"
proof -
  have "get_prop (VRef n) ''line_items'' h = (Inr (VRef la), h)"
    using get_prop_obj[OF assms(1,2), of "''line_items''"] assms(3) by simp
  moreover have "get_prop (VRef la) ''length'' h = (Inr (VNum (fl (of_nat (length ias)))), h)"
    using get_prop_arr[OF assms(4,5), of "''length''"] by (simp add: array_get_def)
  moreover have "fl (of_nat (length ias)) = Fin (of_nat (length ias))"
  proof -
    have "\<bar>int (length ias)\<bar> \<le> 2 ^ 53" using assms(6) by simp
    hence "fl (of_int (int (length ias))) = Fin (of_int (int (length ias)))" by (rule fl_int)
    thus ?thesis by simp
  qed
  ultimately show ?thesis by (simp add: read_def bind_def ret_def)
qed

text \<open>What an edit of a field of line \<open>i\<close> leaves behind, read through the new snapshot.\<close>

lemma edit_line_item_reads:
  assumes shape: "invoice_shape h a ha la ias ta"
      and i: "i < length ias"
      and f: "CHR ''.'' \<notin> set f"
      and pit: "pit = AList.update f x (props h (ias ! i))"
      and q: "own_prop pit ''quantity'' = VNum q"
      and p: "own_prop pit ''unit_price'' = VNum p"
      and fp: "f \<noteq> ''__proto__''"
  shows "\<exists>h' s. handleEditField (VRef a) (line_path i f) x h = (Inr (VRef (length h)), h')
      \<and> (\<forall>g. read h' (VRef (length h)) [''line_items'', show_nat i, g]
               = Some (if g = ''total'' then VNum (js_mul q p) else own_prop pit g))
      \<and> (\<forall>k g. k < length ias \<and> k \<noteq> i \<longrightarrow>
             read h' (VRef (length h)) [''line_items'', show_nat k, g]
               = read h (VRef a) [''line_items'', show_nat k, g])
      \<and> (\<forall>g. read h' (VRef (length h)) [''header'', g] = read h (VRef a) [''header'', g])
      \<and> s = foldl js_add (Fin 0)
              ((map (\<lambda>j. the_num (own_prop (props h j) ''total'')) ias)[i := js_mul q p])
      \<and> (\<forall>g. read h' (VRef (length h)) [''totals'', g] = Some
             (if g = ''total'' then VNum (js_add (js_add s
                   (js_mul s (js_div (the_num (own_prop (props h ta) ''tax_rate'')) (Fin 100))))
                   (the_num (own_prop (props h ta) ''shipping'')))
              else if g = ''tax_amount'' then
                VNum (js_mul s (js_div (the_num (own_prop (props h ta) ''tax_rate'')) (Fin 100)))
              else if g = ''subtotal'' then VNum s
              else own_prop (props h ta) g))
      \<and> read h' (VRef (length h)) [''line_items'', ''length'']
            = Some (VNum (Fin (of_nat (length ias))))"
proof -
  define n where "n = length h"
  from edit_line_item[OF shape i f pit q p fp] obtain h' where
    c: "handleEditField (VRef a) (''line_items.'' @ show_nat i @ ''.'' @ f) x h
               = (Inr (VRef (length h)), h')
          \<and> length h' = Suc (length h)
          \<and> h' ! length h = h ! a
          \<and> h' ! la = h ! la
          \<and> h' ! ha = h ! ha
          \<and> h' ! a = h ! a
          \<and> (\<forall>k < length ias. k \<noteq> i \<longrightarrow> h' ! (ias ! k) = h ! (ias ! k))
          \<and> h' ! (ias ! i) = Obj (AList.update ''total'' (VNum (js_mul q p)) pit)
          \<and> (\<exists>s tx. s = foldl js_add (Fin 0) (map (\<lambda>j. the_num (own_prop (props h' j) ''total'')) ias)
                 \<and> tx = js_mul s (js_div (the_num (own_prop (props h ta) ''tax_rate'')) (Fin 100))
                 \<and> h' ! ta = Obj (AList.update ''total''
                       (VNum (js_add (js_add s tx) (the_num (own_prop (props h ta) ''shipping''))))
                       (AList.update ''tax_amount'' (VNum tx)
                       (AList.update ''subtotal'' (VNum s) (props h ta)))))" ..
  note c1 = c[THEN conjunct2]
  note c2 = c1[THEN conjunct2]
  note c3 = c2[THEN conjunct2]
  note c4 = c3[THEN conjunct2]
  note c5 = c4[THEN conjunct2]
  note c6 = c5[THEN conjunct2]
  note c7 = c6[THEN conjunct2]
  have run: "handleEditField (VRef a) (''line_items.'' @ show_nat i @ ''.'' @ f) x h
               = (Inr (VRef n), h')" using c[THEN conjunct1] by (simp only: n_def)
  have l: "length h' = Suc n" using c1[THEN conjunct1] by (simp only: n_def)
  have hn: "h' ! n = h ! a" using c2[THEN conjunct1] by (simp only: n_def)
  have hla: "h' ! la = h ! la" by (rule c3[THEN conjunct1])
  have hha: "h' ! ha = h ! ha" by (rule c4[THEN conjunct1])
  have others: "\<forall>k < length ias. k \<noteq> i \<longrightarrow> h' ! (ias ! k) = h ! (ias ! k)"
    by (rule c6[THEN conjunct1])
  have hia: "h' ! (ias ! i) = Obj (AList.update ''total'' (VNum (js_mul q p)) pit)"
    by (rule c7[THEN conjunct1])
  from c7[THEN conjunct2] obtain s tx where
    d: "s = foldl js_add (Fin 0) (map (\<lambda>j. the_num (own_prop (props h' j) ''total'')) ias)
                 \<and> tx = js_mul s (js_div (the_num (own_prop (props h ta) ''tax_rate'')) (Fin 100))
                 \<and> h' ! ta = Obj (AList.update ''total''
                       (VNum (js_add (js_add s tx) (the_num (own_prop (props h ta) ''shipping''))))
                       (AList.update ''tax_amount'' (VNum tx)
                       (AList.update ''subtotal'' (VNum s) (props h ta))))"
    by (elim exE)
  have s: "s = foldl js_add (Fin 0) (map (\<lambda>j. the_num (own_prop (props h' j) ''total'')) ias)"
    by (rule d[THEN conjunct1])
  have tx: "tx = js_mul s (js_div (the_num (own_prop (props h ta) ''tax_rate'')) (Fin 100))"
    by (rule d[THEN conjunct2, THEN conjunct1])
  have hta: "h' ! ta = Obj (AList.update ''total''
                       (VNum (js_add (js_add s tx) (the_num (own_prop (props h ta) ''shipping''))))
                       (AList.update ''tax_amount'' (VNum tx)
                       (AList.update ''subtotal'' (VNum s) (props h ta))))"
    by (rule d[THEN conjunct2, THEN conjunct2])
  have a: "a < length h" "h ! a = Obj (props h a)"
    using shape is_object_props[of h a] by (auto simp: invoice_shape_def)
  have pa: "own_prop (props h a) ''line_items'' = VRef la" "own_prop (props h a) ''totals'' = VRef ta"
      "own_prop (props h a) ''header'' = VRef ha"
    using shape by (auto simp: invoice_shape_def)
  have la: "la < length h" "h ! la = Arr (map (\<lambda>i. Some (VRef i)) ias)"
    using shape by (auto simp: invoice_shape_def)
  have len: "length ias < 4294967295" using shape by (simp add: invoice_shape_def)
  have itemo: "\<forall>j \<in> set ias. j < length h \<and> h ! j = Obj (props h j)"
    using shape is_object_props by (auto simp: invoice_shape_def list_all_iff has_numbers_def)
  have ta: "ta < length h" "h ! ta = Obj (props h ta)"
    using shape is_object_props[of h ta] by (auto simp: invoice_shape_def has_numbers_def)
  have ha: "ha < length h" "h ! ha = Obj (props h ha)"
    using shape is_object_props[of h ha] by (auto simp: invoice_shape_def)
  have dist: "distinct ias" using shape by (simp add: invoice_shape_def)
  have r1: "read h' (VRef n) [''line_items'', show_nat k, g] = Some (own_prop (props h' (ias ! k)) g)"
    if k: "k < length ias" for k g
  proof (rule read_item[where pa = "props h a" and la = la and ias = ias])
    show "n < length h'" by (simp add: l)
    show "h' ! n = Obj (props h a)" using hn a by simp
    show "own_prop (props h a) ''line_items'' = VRef la" by (rule pa)
    show "la < length h'" using la by (simp add: l n_def)
    show "h' ! la = Arr (map (\<lambda>i. Some (VRef i)) ias)" using hla la by simp
    show "length ias < 4294967295" by (rule len)
    show "k < length ias" by (rule k)
    show "ias ! k < length h'" using itemo k by (simp add: l n_def less_Suc_eq)
    show "h' ! (ias ! k) = Obj (props h' (ias ! k))"
    proof (cases "k = i")
      case True
      then show ?thesis using hia by (simp add: props_def)
    next
      case False
      hence e: "h' ! (ias ! k) = h ! (ias ! k)" using others k by simp
      have "h ! (ias ! k) = Obj (props h (ias ! k))" using itemo k by simp
      hence "h' ! (ias ! k) = Obj (props h (ias ! k))" using e by simp
      thus ?thesis by (simp add: props_def)
    qed
  qed
  have pk: "props h' (ias ! k) = props h (ias ! k)" if "k < length ias" "k \<noteq> i" for k
    using others that by (simp add: props_def)
  have pi: "props h' (ias ! i) = AList.update ''total'' (VNum (js_mul q p)) pit"
    using hia by (simp add: props_def)
  have smap: "map (\<lambda>j. the_num (own_prop (props h' j) ''total'')) ias
            = (map (\<lambda>j. the_num (own_prop (props h j) ''total'')) ias)[i := js_mul q p]"
  proof (rule nth_equalityI)
    show "length (map (\<lambda>j. the_num (own_prop (props h' j) ''total'')) ias)
        = length ((map (\<lambda>j. the_num (own_prop (props h j) ''total'')) ias)[i := js_mul q p])"
      by simp
  next
    fix k assume "k < length (map (\<lambda>j. the_num (own_prop (props h' j) ''total'')) ias)"
    hence k: "k < length ias" by simp
    show "map (\<lambda>j. the_num (own_prop (props h' j) ''total'')) ias ! k
        = (map (\<lambda>j. the_num (own_prop (props h j) ''total'')) ias)[i := js_mul q p] ! k"
    proof (cases "k = i")
      case True
      then show ?thesis using k by (simp add: pi own_prop_update the_num_def)
    next
      case False
      then show ?thesis using k by (simp add: pk)
    qed
  qed
  have rt: "read h' (VRef n) [''totals'', g] = Some (own_prop (props h' ta) g)" for g
  proof (rule read_two[where pa = "props h a" and b = ta])
    show "n < length h'" by (simp add: l)
    show "h' ! n = Obj (props h a)" using hn a by simp
    show "own_prop (props h a) ''totals'' = VRef ta" by (rule pa)
    show "ta < length h'" using ta by (simp add: l n_def)
    show "h' ! ta = Obj (props h' ta)" using hta by (simp add: props_def)
  qed
  have rh: "read h' (VRef n) [''header'', g] = Some (own_prop (props h ha) g)" for g
  proof (rule read_two[where pa = "props h a" and b = ha])
    show "n < length h'" by (simp add: l)
    show "h' ! n = Obj (props h a)" using hn a by simp
    show "own_prop (props h a) ''header'' = VRef ha" by (rule pa)
    show "ha < length h'" using ha by (simp add: l n_def)
    show "h' ! ha = Obj (props h ha)" using hha ha by simp
  qed
  show ?thesis
  proof (intro exI[of _ h'] exI[of _ s] conjI allI impI)
    show "handleEditField (VRef a) (line_path i f) x h = (Inr (VRef (length h)), h')"
      using run by (simp add: line_path_def n_def)
  next
    fix g
    show "read h' (VRef (length h)) [''line_items'', show_nat i, g]
          = Some (if g = ''total'' then VNum (js_mul q p) else own_prop pit g)"
      using r1[OF i, of g] by (simp add: pi own_prop_update n_def)
  next
    fix k g assume "k < length ias \<and> k \<noteq> i"
    thus "read h' (VRef (length h)) [''line_items'', show_nat k, g]
          = read h (VRef a) [''line_items'', show_nat k, g]"
      using r1[of k g] pk[of k] shape_read_item[OF shape, of k g] by (simp add: n_def)
  next
    fix g
    show "read h' (VRef (length h)) [''header'', g] = read h (VRef a) [''header'', g]"
      using rh[of g] shape_read_header[OF shape, of g] by (simp add: n_def)
  next
    show "s = foldl js_add (Fin 0)
              ((map (\<lambda>j. the_num (own_prop (props h j) ''total'')) ias)[i := js_mul q p])"
      using s smap by simp
  next
    fix g
    show "read h' (VRef (length h)) [''totals'', g] = Some
             (if g = ''total'' then VNum (js_add (js_add s
                   (js_mul s (js_div (the_num (own_prop (props h ta) ''tax_rate'')) (Fin 100))))
                   (the_num (own_prop (props h ta) ''shipping'')))
              else if g = ''tax_amount'' then
                VNum (js_mul s (js_div (the_num (own_prop (props h ta) ''tax_rate'')) (Fin 100)))
              else if g = ''subtotal'' then VNum s
              else own_prop (props h ta) g)"
      using rt[of g] hta by (simp add: props_def own_prop_update n_def tx)
  next
    have "read h' (VRef n) [''line_items'', ''length''] = Some (VNum (Fin (of_nat (length ias))))"
    proof (rule read_length[where pa = "props h a" and la = la])
      show "n < length h'" by (simp add: l)
      show "h' ! n = Obj (props h a)" using hn a by simp
      show "own_prop (props h a) ''line_items'' = VRef la" by (rule pa)
      show "la < length h'" using la by (simp add: l n_def)
      show "h' ! la = Arr (map (\<lambda>i. Some (VRef i)) ias)" using hla la by simp
      show "length ias < 4294967295" by (rule len)
    qed
    thus "read h' (VRef (length h)) [''line_items'', ''length'']
            = Some (VNum (Fin (of_nat (length ias))))" by (simp add: n_def)
  qed
qed

section \<open>An edit of a header field\<close>

lemma edit_header_reads:
  assumes shape: "invoice_shape h a ha la ias ta"
      and k: "CHR ''.'' \<notin> set k"
      and inc: "\<not> js_includes (''header.'' @ k) ''line_items''"
      and kp: "k \<noteq> ''__proto__''"
  shows "\<exists>h'. handleEditField (VRef a) (''header.'' @ k) x h = (Inr (VRef (length h)), h')
      \<and> (\<forall>g. read h' (VRef (length h)) [''header'', g]
               = Some (if g = k then x else own_prop (props h ha) g))
      \<and> (\<forall>j g. j < length ias \<longrightarrow>
             read h' (VRef (length h)) [''line_items'', show_nat j, g]
               = read h (VRef a) [''line_items'', show_nat j, g])
      \<and> (\<forall>g. read h' (VRef (length h)) [''totals'', g] = read h (VRef a) [''totals'', g])"
proof -
  define n where "n = length h"
  define pa where "pa = props h a"
  define h1 where "h1 = h @ [Obj pa]"
  define h2 where "h2 = h1[ha := Obj (AList.update k x (props h ha))]"
  have a: "a < length h" "h ! a = Obj pa"
    using shape is_object_props[of h a] by (auto simp: invoice_shape_def pa_def)
  have pa: "own_prop pa ''line_items'' = VRef la" "own_prop pa ''totals'' = VRef ta"
      "own_prop pa ''header'' = VRef ha"
    using shape by (auto simp: invoice_shape_def pa_def)
  have la: "la < length h" "h ! la = Arr (map (\<lambda>i. Some (VRef i)) ias)"
    using shape by (auto simp: invoice_shape_def)
  have len: "length ias < 4294967295" using shape by (simp add: invoice_shape_def)
  have itemo: "\<forall>j \<in> set ias. j < length h \<and> h ! j = Obj (props h j)"
    using shape is_object_props by (auto simp: invoice_shape_def list_all_iff has_numbers_def)
  have ta: "ta < length h" "h ! ta = Obj (props h ta)"
    using shape is_object_props[of h ta] by (auto simp: invoice_shape_def has_numbers_def)
  have ha: "ha < length h" "h ! ha = Obj (props h ha)"
    using shape is_object_props[of h ha] by (auto simp: invoice_shape_def)
  have dist: "distinct (a # ha # la # ta # ias)" using shape by (simp add: invoice_shape_def)
  have l1: "length h1 = Suc n" by (simp add: h1_def n_def)
  have l2: "length h2 = Suc n" by (simp add: h2_def l1)
  have h1old: "j < length h \<Longrightarrow> h1 ! j = h ! j" for j by (simp add: h1_def nth_append)
  have h1n: "h1 ! n = Obj pa" by (simp add: h1_def n_def)
  have h2n: "h2 ! n = Obj pa" using ha h1n by (simp add: h2_def n_def)
  have h2old: "j < length h \<Longrightarrow> j \<noteq> ha \<Longrightarrow> h2 ! j = h ! j" for j
    using h1old[of j] by (simp add: h2_def)
  have h2ha: "h2 ! ha = Obj (AList.update k x (props h ha))" using ha by (simp add: h2_def l1 n_def)
  have sp: "spread (VRef a) h = (Inr (VRef n), h1)"
    using a by (simp add: spread_def ret_def h1_def n_def)
  have keys: "js_split ''.'' (''header.'' @ k) = [''header'', k]"
  proof -
    have "''header.'' @ k = ''header'' @ CHR ''.'' # k" by simp
    moreover have "CHR ''.'' \<notin> set ''header''" by simp
    ultimately have "js_split ''.'' (''header.'' @ k) = ''header'' # js_split ''.'' k"
      using split_dot[of "''header''" k] by simp
    thus ?thesis using k by (simp add: split_no_dot)
  qed
  have w: "walk (VRef n) [''header''] h1 = (Inr (VRef ha), h1)"
    using get_prop_obj[of n h1 pa "''header''"] l1 h1n pa by (simp add: bind_def ret_def)
  have st: "set_prop (VRef ha) k x h1 = (Inr (), h2)"
    using set_prop_obj[of ha h1 "props h ha" k x] ha h1old[of ha] l1 kp by (simp add: h2_def n_def)
  have run: "handleEditField (VRef a) (''header.'' @ k) x h = (Inr (VRef n), h2)"
  proof -
    have inc': "js_includes (''header.'' @ k) ''line_items'' = False" using inc by simp
    have "handleEditField (VRef a) (''header.'' @ k) x h
        = bind (spread (VRef a)) (\<lambda>updated.
          bind (walk updated [''header'']) (\<lambda>obj.
          bind (set_prop obj k x) (\<lambda>_.
          bind (ret ()) (\<lambda>_. ret updated)))) h"
      unfolding handleEditField_def keys Let_def inc'
      by (simp add: truthy_def del: walk.simps)
    also have "\<dots> = (Inr (VRef n), h2)"
      by (simp add: bind_def sp w st ret_def del: walk.simps)
    finally show ?thesis .
  qed
  have rh: "read h2 (VRef n) [''header'', g] = Some (own_prop (AList.update k x (props h ha)) g)" for g
  proof (rule read_two[where pa = pa and b = ha])
    show "n < length h2" by (simp add: l2)
    show "h2 ! n = Obj pa" by (rule h2n)
    show "own_prop pa ''header'' = VRef ha" by (rule pa)
    show "ha < length h2" using ha by (simp add: l2 n_def)
    show "h2 ! ha = Obj (AList.update k x (props h ha))" by (rule h2ha)
  qed
  have rt: "read h2 (VRef n) [''totals'', g] = Some (own_prop (props h ta) g)" for g
  proof (rule read_two[where pa = pa and b = ta])
    show "n < length h2" by (simp add: l2)
    show "h2 ! n = Obj pa" by (rule h2n)
    show "own_prop pa ''totals'' = VRef ta" by (rule pa)
    show "ta < length h2" using ta by (simp add: l2 n_def)
    have "ta \<noteq> ha" using dist by auto
    thus "h2 ! ta = Obj (props h ta)" using h2old[of ta] ta by simp
  qed
  have ri: "read h2 (VRef n) [''line_items'', show_nat j, g] = Some (own_prop (props h (ias ! j)) g)"
    if j: "j < length ias" for j g
  proof (rule read_item[where pa = pa and la = la and ias = ias])
    have m: "ias ! j \<in> set ias" using j by simp
    show "n < length h2" by (simp add: l2)
    show "h2 ! n = Obj pa" by (rule h2n)
    show "own_prop pa ''line_items'' = VRef la" by (rule pa)
    show "la < length h2" using la by (simp add: l2 n_def)
    have "la \<noteq> ha" using dist by auto
    thus "h2 ! la = Arr (map (\<lambda>i. Some (VRef i)) ias)" using h2old[of la] la by simp
    show "length ias < 4294967295" by (rule len)
    show "j < length ias" by (rule j)
    show "ias ! j < length h2" using itemo m by (simp add: l2 n_def less_Suc_eq)
    have "ias ! j \<noteq> ha" using dist m by auto
    thus "h2 ! (ias ! j) = Obj (props h (ias ! j))" using h2old[of "ias ! j"] itemo m by simp
  qed
  show ?thesis
  proof (intro exI[of _ h2] conjI allI impI)
    show "handleEditField (VRef a) (''header.'' @ k) x h = (Inr (VRef (length h)), h2)"
      using run by (simp add: n_def)
  next
    fix g
    show "read h2 (VRef (length h)) [''header'', g] = Some (if g = k then x else own_prop (props h ha) g)"
      using rh[of g] by (simp add: own_prop_update n_def)
  next
    fix j g assume "j < length ias"
    thus "read h2 (VRef (length h)) [''line_items'', show_nat j, g]
          = read h (VRef a) [''line_items'', show_nat j, g]"
      using ri[of j g] shape_read_item[OF shape, of j g] by (simp add: n_def)
  next
    fix g
    show "read h2 (VRef (length h)) [''totals'', g] = read h (VRef a) [''totals'', g]"
      using rt[of g] shape_read_totals[OF shape, of g] by (simp add: n_def)
  qed
qed

section \<open>Facts about splitting a stream into frames\<close>

lemma js_split_Nil: "sep \<noteq> [] \<Longrightarrow> js_split sep [] = [[]]"
  by simp

lemma js_split_match:
  "sep \<noteq> [] \<Longrightarrow> starts_with (c # cs) sep \<Longrightarrow>
   js_split sep (c # cs) = [] # js_split sep (drop (length sep - 1) cs)"
  by simp

lemma js_split_nomatch:
  "sep \<noteq> [] \<Longrightarrow> \<not> starts_with (c # cs) sep \<Longrightarrow> js_split sep cs = y # ys \<Longrightarrow>
   js_split sep (c # cs) = (c # y) # ys"
  by simp

lemma js_split_nonempty: "sep \<noteq> [] \<Longrightarrow> js_split sep s \<noteq> []"
proof (cases s)
  case Nil
  assume "sep \<noteq> []"
  then show ?thesis using Nil by simp
next
  case (Cons c cs)
  assume "sep \<noteq> []"
  then show ?thesis using Cons by (cases "js_split sep cs") simp_all
qed

declare js_split.simps [simp del]

lemma starts_with_append:
  "length p \<le> length s \<Longrightarrow> starts_with (s @ t) p = starts_with s p"
  by (simp add: starts_with_def)

lemma starts_with_length:
  assumes "starts_with s p"
  shows "length p \<le> length s"
proof -
  have "length (take (length p) s) = length p" using assms by (simp only: starts_with_def)
  thus ?thesis by simp
qed

lemma js_split_short: "sep \<noteq> [] \<Longrightarrow> length s < length sep \<Longrightarrow> js_split sep s = [s]"
proof (induction s)
  case Nil
  then show ?case by (simp add: js_split_Nil)
next
  case (Cons c cs)
  have ne: "sep \<noteq> []" and short: "length (c # cs) < length sep" using Cons.prems by auto
  have ns: "\<not> starts_with (c # cs) sep"
  proof
    assume "starts_with (c # cs) sep"
    hence "length sep \<le> length (c # cs)" by (rule starts_with_length)
    thus False using short by simp
  qed
  have "js_split sep cs = [cs]" using Cons.IH ne short by simp
  thus ?case by (rule js_split_nomatch[OF ne ns])
qed

lemma js_split_single: "sep \<noteq> [] \<Longrightarrow> js_split sep s = [y] \<Longrightarrow> y = s"
proof (induction s arbitrary: y)
  case Nil
  then show ?case by (simp add: js_split_Nil)
next
  case (Cons c cs)
  have ne: "sep \<noteq> []" and sp: "js_split sep (c # cs) = [y]" using Cons.prems by auto
  show ?case
  proof (cases "starts_with (c # cs) sep")
    case True
    have "js_split sep (c # cs) = [] # js_split sep (drop (length sep - 1) cs)"
      using ne True by (rule js_split_match)
    thus ?thesis using sp js_split_nonempty[OF ne, of "drop (length sep - 1) cs"] by simp
  next
    case False
    obtain z zs where z: "js_split sep cs = z # zs"
      using js_split_nonempty[OF ne, of cs] by (cases "js_split sep cs") auto
    have "js_split sep (c # cs) = (c # z) # zs" using ne False z by (rule js_split_nomatch)
    hence "zs = []" "y = c # z" using sp by auto
    moreover have "z = cs" using Cons.IH[OF ne, of z] z \<open>zs = []\<close> by simp
    ultimately show ?thesis by simp
  qed
qed

lemma js_split_append:
  "sep \<noteq> [] \<Longrightarrow>
   js_split sep (s @ t) = butlast (js_split sep s) @ js_split sep (last (js_split sep s) @ t)"
proof (induction s rule: length_induct)
  case (1 s)
  have ne: "sep \<noteq> []" using 1 by simp
  show ?case
  proof (cases s)
    case Nil
    then show ?thesis by (simp add: js_split_Nil[OF ne])
  next
    case (Cons c cs)
    show ?thesis
    proof (cases "starts_with (c # cs) sep")
      case True
      define r where "r = drop (length sep - 1) cs"
      have len: "length sep \<le> length (c # cs)" using True by (rule starts_with_length)
      hence st: "starts_with (c # (cs @ t)) sep" using True starts_with_append[of sep "c # cs" t] by simp
      have d: "drop (length sep - 1) (cs @ t) = r @ t" using len by (simp add: r_def)
      have x: "js_split sep r \<noteq> []" using ne by (rule js_split_nonempty)
      have "length r < length s" by (simp add: r_def Cons)
      hence ih: "js_split sep (r @ t) = butlast (js_split sep r) @ js_split sep (last (js_split sep r) @ t)"
        using 1 ne by blast
      have a: "js_split sep (c # (cs @ t)) = [] # js_split sep (r @ t)"
        using js_split_match[OF ne st] d by simp
      have b: "js_split sep (c # cs) = [] # js_split sep r"
        using js_split_match[OF ne True] by (simp add: r_def)
      show ?thesis unfolding Cons using a b ih x by simp
    next
      case False
      obtain y ys where y: "js_split sep cs = y # ys"
        using js_split_nonempty[OF ne, of cs] by (cases "js_split sep cs") auto
      have sp: "js_split sep (c # cs) = (c # y) # ys" using ne False y by (rule js_split_nomatch)
      show ?thesis
      proof (cases "ys = []")
        case True
        hence "y = cs" using js_split_single[OF ne, of cs y] y by simp
        thus ?thesis unfolding Cons using sp True by simp
      next
        case ysne: False
        have len: "length sep \<le> length (c # cs)"
        proof (rule ccontr)
          assume "\<not> length sep \<le> length (c # cs)"
          hence "length cs < length sep" by simp
          hence "js_split sep cs = [cs]" using ne js_split_short by blast
          thus False using y ysne by simp
        qed
        hence nst: "\<not> starts_with (c # (cs @ t)) sep"
          using False starts_with_append[of sep "c # cs" t] by simp
        have "length cs < length s" by (simp add: Cons)
        hence "js_split sep (cs @ t) = butlast (js_split sep cs) @ js_split sep (last (js_split sep cs) @ t)"
          using 1 ne by blast
        hence ih': "js_split sep (cs @ t) = y # (butlast ys @ js_split sep (last ys @ t))"
          using ysne y by simp
        have "js_split sep (c # (cs @ t)) = (c # y) # (butlast ys @ js_split sep (last ys @ t))"
          using ne nst ih' by (rule js_split_nomatch)
        thus ?thesis unfolding Cons using sp ysne by simp
      qed
    qed
  qed
qed

lemma js_split_last:
  "sep \<noteq> [] \<Longrightarrow> js_split sep (last (js_split sep s)) = [last (js_split sep s)]"
proof (induction s rule: length_induct)
  case (1 s)
  have ne: "sep \<noteq> []" using 1 by simp
  show ?case
  proof (cases s)
    case Nil
    then show ?thesis by (simp add: js_split_Nil[OF ne])
  next
    case (Cons c cs)
    show ?thesis
    proof (cases "starts_with (c # cs) sep")
      case True
      define r where "r = drop (length sep - 1) cs"
      have x: "js_split sep r \<noteq> []" using ne by (rule js_split_nonempty)
      have "length r < length s" by (simp add: r_def Cons)
      hence ih: "js_split sep (last (js_split sep r)) = [last (js_split sep r)]"
        using 1 ne by blast
      have b: "js_split sep (c # cs) = [] # js_split sep r"
        using js_split_match[OF ne True] by (simp add: r_def)
      show ?thesis unfolding Cons using b ih x by simp
    next
      case False
      obtain y ys where y: "js_split sep cs = y # ys"
        using js_split_nonempty[OF ne, of cs] by (cases "js_split sep cs") auto
      have sp: "js_split sep (c # cs) = (c # y) # ys" using ne False y by (rule js_split_nomatch)
      show ?thesis
      proof (cases "ys = []")
        case True
        hence "y = cs" using js_split_single[OF ne, of cs y] y by simp
        hence "js_split sep (c # cs) = [c # cs]" using sp True by simp
        thus ?thesis unfolding Cons by simp
      next
        case ysne: False
        have "length cs < length s" by (simp add: Cons)
        hence "js_split sep (last (js_split sep cs)) = [last (js_split sep cs)]"
          using 1 ne by blast
        thus ?thesis unfolding Cons using y sp ysne by simp
      qed
    qed
  qed
qed

section \<open>Facts about the step list\<close>

lemma strict_eq_str: "strict_eq x (JStr i) = (x = JStr i)"
  by (cases x) auto

lemma set_first_seen: "set (first_seen xs) = set xs"
  by (induction xs) auto

lemma distinct_first_seen: "distinct (first_seen xs)"
  by (induction xs) (auto simp: set_first_seen)

lemma first_seen_snoc:
  "first_seen (xs @ [x]) = (if x \<in> set xs then first_seen xs else first_seen xs @ [x])"
  by (induction xs) (auto simp: set_first_seen)

lemma steps_after_snoc:
  "steps_after (evs @ [(i, st, msg)]) = updateStep (JStr i) st msg (steps_after evs)"
  by (simp add: steps_after_def)

lemma events_for_snoc:
  "events_for j (evs @ [e]) = (if fst e = j then events_for j evs @ [e] else events_for j evs)"
  by (simp add: events_for_def)

lemma events_for_empty: "events_for j evs = [] \<longleftrightarrow> j \<notin> fst ` set evs"
  by (auto simp: events_for_def filter_empty_conv)

lemma kept_message_snoc:
  assumes "events_for i evs \<noteq> []"
  shows "kept_message i (evs @ [(i, st, msg)])
           = (if jtruthy msg then msg else kept_message i evs)"
  using assms by (simp add: kept_message_def Let_def events_for_snoc)

lemma kept_message_first:
  assumes "events_for i evs = []"
  shows "kept_message i (evs @ [(i, st, msg)]) = msg"
  using assms by (simp add: kept_message_def events_for_snoc Let_def)

lemma kept_message_other:
  "j \<noteq> i \<Longrightarrow> kept_message j (evs @ [(i, st, msg)]) = kept_message j evs"
  by (simp add: kept_message_def events_for_snoc Let_def)

lemma last_status_snoc: "last_status i (evs @ [(i, st, msg)]) = st"
  by (simp add: last_status_def events_for_snoc)

lemma last_status_other: "j \<noteq> i \<Longrightarrow> last_status j (evs @ [(i, st, msg)]) = last_status j evs"
  by (simp add: last_status_def events_for_snoc)

lemma updateStep_present:
  assumes "JStr i \<in> step_id ` set prev"
  shows "updateStep (JStr i) st msg prev
           = map (\<lambda>s. if step_id s = JStr i
                        then s\<lparr>status := st, message := (if jtruthy msg then msg else message s)\<rparr>
                        else s) prev"
proof -
  have "find (\<lambda>s. strict_eq (step_id s) (JStr i)) prev \<noteq> None"
    using assms by (auto simp: find_None_iff strict_eq_str)
  thus ?thesis by (auto simp: updateStep_def strict_eq_str)
qed

lemma updateStep_absent:
  assumes "JStr i \<notin> step_id ` set prev"
  shows "updateStep (JStr i) st msg prev
           = prev @ [\<lparr>step_id = JStr i, label = label_for (JStr i), status = st, message = msg\<rparr>]"
proof -
  have "find (\<lambda>s. strict_eq (step_id s) (JStr i)) prev = None"
    using assms by (force simp: find_None_iff strict_eq_str)
  thus ?thesis by (simp add: updateStep_def)
qed

lemma steps_inv_all: "steps_inv evs"
proof (induction evs rule: rev_induct)
  case Nil
  then show ?case by (simp add: steps_inv_def steps_after_def)
next
  case (snoc e evs)
  obtain i st msg where e: "e = (i, st, msg)" by (cases e) auto
  have ids: "map step_id (steps_after evs) = map JStr (first_seen (map fst evs))"
    and each: "\<forall>s \<in> set (steps_after evs). \<exists>j. step_id s = JStr j
             \<and> status s = last_status j evs \<and> message s = kept_message j evs"
    using snoc by (auto simp: steps_inv_def)
  have mem: "JStr i \<in> step_id ` set (steps_after evs) \<longleftrightarrow> i \<in> fst ` set evs"
  proof -
    have "step_id ` set (steps_after evs) = JStr ` set (first_seen (map fst evs))"
      using ids by (metis set_map)
    thus ?thesis by (auto simp: set_first_seen)
  qed
  show ?case
  proof (cases "i \<in> fst ` set evs")
    case True
    hence ne: "events_for i evs \<noteq> []" by (simp add: events_for_empty)
    have up: "steps_after (evs @ [e])
        = map (\<lambda>s. if step_id s = JStr i
                     then s\<lparr>status := st, message := (if jtruthy msg then msg else message s)\<rparr>
                     else s) (steps_after evs)"
      using True mem by (simp add: e steps_after_snoc updateStep_present)
    have a: "map step_id (steps_after (evs @ [e])) = map JStr (first_seen (map fst (evs @ [e])))"
    proof -
      have "map step_id (steps_after (evs @ [e])) = map step_id (steps_after evs)"
        unfolding up by (simp add: comp_def cong: map_cong)
      moreover have "first_seen (map fst (evs @ [e])) = first_seen (map fst evs)"
        using True by (simp add: e first_seen_snoc)
      ultimately show ?thesis using ids by simp
    qed
    have b: "\<forall>s \<in> set (steps_after (evs @ [e])). \<exists>j. step_id s = JStr j
             \<and> status s = last_status j (evs @ [e]) \<and> message s = kept_message j (evs @ [e])"
    proof
      fix s assume "s \<in> set (steps_after (evs @ [e]))"
      then obtain t where t: "t \<in> set (steps_after evs)"
        and s: "s = (if step_id t = JStr i
                     then t\<lparr>status := st, message := (if jtruthy msg then msg else message t)\<rparr>
                     else t)"
        unfolding up by auto
      obtain j where j: "step_id t = JStr j" "status t = last_status j evs"
          "message t = kept_message j evs" using each t by blast
      show "\<exists>j. step_id s = JStr j
             \<and> status s = last_status j (evs @ [e]) \<and> message s = kept_message j (evs @ [e])"
      proof (cases "j = i")
        case True
        then show ?thesis using j s ne
          by (intro exI[of _ i]) (simp add: e last_status_snoc kept_message_snoc)
      next
        case False
        then show ?thesis using j s
          by (intro exI[of _ j]) (simp add: e last_status_other kept_message_other)
      qed
    qed
    show ?thesis using a b by (simp add: steps_inv_def)
  next
    case False
    hence em: "events_for i evs = []" by (simp add: events_for_empty)
    have up: "steps_after (evs @ [e])
        = steps_after evs @ [\<lparr>step_id = JStr i, label = label_for (JStr i), status = st, message = msg\<rparr>]"
      using False mem by (simp add: e steps_after_snoc updateStep_absent)
    have a: "map step_id (steps_after (evs @ [e])) = map JStr (first_seen (map fst (evs @ [e])))"
      unfolding up using False ids by (simp add: e first_seen_snoc)
    have b: "\<forall>s \<in> set (steps_after (evs @ [e])). \<exists>j. step_id s = JStr j
             \<and> status s = last_status j (evs @ [e]) \<and> message s = kept_message j (evs @ [e])"
    proof
      fix s assume "s \<in> set (steps_after (evs @ [e]))"
      then consider "s \<in> set (steps_after evs)"
        | "s = \<lparr>step_id = JStr i, label = label_for (JStr i), status = st, message = msg\<rparr>"
        unfolding up by auto
      then show "\<exists>j. step_id s = JStr j
             \<and> status s = last_status j (evs @ [e]) \<and> message s = kept_message j (evs @ [e])"
      proof cases
        case 1
        then obtain j where j: "step_id s = JStr j" "status s = last_status j evs"
          "message s = kept_message j evs" using each by blast
        have "JStr j \<in> step_id ` set (steps_after evs)" using 1 j(1) by force
        hence "j \<noteq> i" using False mem by (metis (no_types) ids image_iff jv.inject(3) list.set_map set_first_seen)
        then show ?thesis using j
          by (intro exI[of _ j]) (simp add: e last_status_other kept_message_other)
      next
        case 2
        then show ?thesis using em
          by (intro exI[of _ i]) (simp add: e last_status_snoc kept_message_first)
      qed
    qed
    show ?thesis using a b by (simp add: steps_inv_def)
  qed
qed

lemmas step_eval = steps_after_def updateStep_def label_for_def labels_def sample_events_def
  kept_message_def last_status_def last_message_def events_for_def Let_def

subsection \<open>The stream loop\<close>

lemma frame_end_nonempty: "frame_end \<noteq> []"
  by (simp add: frame_end_def)

lemma split_frame:
  "CHR 0x0A \<notin> set b \<Longrightarrow> js_split frame_end (b @ frame_end @ t) = b # js_split frame_end t"
proof (induction b)
  case Nil
  have "starts_with (frame_end @ t) frame_end" by (simp add: starts_with_def)
  hence "js_split frame_end (CHR 0x0A # CHR 0x0A # t) = [] # js_split frame_end (drop (length frame_end - 1) (CHR 0x0A # t))"
    using js_split_match[OF frame_end_nonempty, of "CHR 0x0A" "CHR 0x0A # t"] by (simp add: frame_end_def)
  thus ?case by (simp add: frame_end_def)
next
  case (Cons c cs)
  have c: "c \<noteq> CHR 0x0A" and cs: "CHR 0x0A \<notin> set cs" using Cons.prems by auto
  have ns: "\<not> starts_with (c # (cs @ frame_end @ t)) frame_end"
    using c by (simp add: starts_with_def frame_end_def)
  have "js_split frame_end (cs @ frame_end @ t) = cs # js_split frame_end t" using Cons.IH cs by simp
  hence "js_split frame_end (c # (cs @ frame_end @ t)) = (c # cs) # js_split frame_end t"
    by (rule js_split_nomatch[OF frame_end_nonempty ns])
  thus ?case by simp
qed

lemma frames_of_append:
  assumes "last (js_split frame_end t1) = []"
  shows "frames_of (t1 @ t2) = frames_of t1 @ frames_of t2"
proof -
  have "js_split frame_end (t1 @ t2) = butlast (js_split frame_end t1) @ js_split frame_end t2"
    using js_split_append[OF frame_end_nonempty, of t1 t2] assms by simp
  thus ?thesis using js_split_nonempty[OF frame_end_nonempty, of t2]
    by (simp add: frames_of_def butlast_append)
qed

lemma frames_of_frame:
  "CHR 0x0A \<notin> set b \<Longrightarrow> frames_of (b @ frame_end @ t) = b # frames_of t"
  using js_split_nonempty[OF frame_end_nonempty, of t] by (simp add: frames_of_def split_frame)

lemma frames_of_empty: "frames_of [] = []"
  by (simp add: frames_of_def js_split_Nil[OF frame_end_nonempty])

lemma handle_lines_append:
  "handle_lines parse (xs @ ys) st = handle_lines parse ys (handle_lines parse xs st)"
  by (simp add: handle_lines_def)

lemma handle_lines_Cons:
  "handle_lines parse (x # xs) st = handle_lines parse xs (handle_line parse st x)"
  by (simp add: handle_lines_def)

lemma handle_lines_Nil: "handle_lines parse [] st = st"
  by (simp add: handle_lines_def)

lemma handle_data_log: "handle_data d (log_error st) = log_error (handle_data d st)"
  by (simp add: handle_data_def log_error_def on_success_def Let_def split: sum.splits)

lemma handle_line_log: "handle_line parse (log_error st) l = log_error (handle_line parse st l)"
  by (simp add: handle_line_def handle_data_log split: option.splits)

lemma handle_lines_log: "handle_lines parse ls (log_error st) = log_error (handle_lines parse ls st)"
  by (induction ls arbitrary: st) (simp_all add: handle_lines_Nil handle_lines_Cons handle_line_log)

text \<open>
  However the text of the stream is cut into chunks, the loop handles the complete frames
  of the whole text, in order.
\<close>

lemma read_loop_chunks:
  assumes "js_split frame_end buffer = [buffer]"
  shows "read_loop parse (map Chunk cs) buffer st
           = (True, handle_lines parse (frames_of (buffer @ concat cs)) st)"
  using assms
proof (induction cs arbitrary: buffer st)
  case Nil
  then show ?case by (simp add: frames_of_def handle_lines_Nil)
next
  case (Cons c cs)
  define L where "L = js_split frame_end (buffer @ c)"
  have Lne: "L \<noteq> []" unfolding L_def using frame_end_nonempty by (rule js_split_nonempty)
  have b: "js_split frame_end (last L) = [last L]"
    unfolding L_def using frame_end_nonempty by (rule js_split_last)
  have sp: "js_split frame_end ((buffer @ c) @ concat cs)
              = butlast L @ js_split frame_end (last L @ concat cs)"
    unfolding L_def using frame_end_nonempty by (rule js_split_append)
  have "frames_of (buffer @ concat (c # cs)) = butlast L @ frames_of (last L @ concat cs)"
    using sp js_split_nonempty[OF frame_end_nonempty, of "last L @ concat cs"]
    by (simp add: frames_of_def butlast_append)
  moreover have "read_loop parse (map Chunk (c # cs)) buffer st
      = read_loop parse (map Chunk cs) (last L) (handle_lines parse (butlast L) st)"
    by (simp add: L_def Let_def)
  ultimately show ?case using Cons.IH[OF b] by (simp add: handle_lines_append)
qed

lemma read_loop_failure:
  "ReadFailure \<in> set rs \<Longrightarrow> fst (read_loop parse rs buffer st) = False"
proof (induction rs arbitrary: buffer st)
  case Nil
  then show ?case by simp
next
  case (Cons r rs)
  then show ?case by (cases r) (auto simp: Let_def)
qed

lemma handleUpload_chunks:
  assumes "file st = Some f"
  shows "handleUpload parse (Body (map Chunk cs)) st
           = (handle_lines parse (frames_of (concat cs)) (begin_upload st))\<lparr>isLoading := False\<rparr>"
proof -
  have "js_split frame_end [] = [[]]" using frame_end_nonempty by (rule js_split_Nil)
  hence "read_loop parse (map Chunk cs) [] (begin_upload st)
           = (True, handle_lines parse (frames_of ([] @ concat cs)) (begin_upload st))"
    by (rule read_loop_chunks)
  thus ?thesis using assms by (simp add: handleUpload_def receive_def finish_upload_def)
qed

lemma sse_frames:
  "CHR 0x0A \<notin> set payload \<Longrightarrow> frames_of (sse payload @ t) = (''data: '' @ payload) # frames_of t"
proof -
  assume "CHR 0x0A \<notin> set payload"
  hence "CHR 0x0A \<notin> set (''data: '' @ payload)" by simp
  hence "frames_of ((''data: '' @ payload) @ frame_end @ t) = (''data: '' @ payload) # frames_of t"
    by (rule frames_of_frame)
  thus ?thesis by (simp add: sse_def)
qed

lemma handle_line_data:
  "handle_line parse st (CHR ''d'' # CHR ''a'' # CHR ''t'' # CHR ''a'' # CHR '':'' # CHR '' '' # payload)
     = (case parse payload of None \<Rightarrow> log_error st | Some d \<Rightarrow> handle_data d st)"
  by (simp add: handle_line_def starts_with_def)

lemma result_handle_data:
  "is_result_event d \<Longrightarrow> result (handle_data d st) = result_of d \<and> steps (handle_data d st) = steps st"
  by (simp add: is_result_event_def handle_data_def result_of_def on_success_def log_error_def Let_def
      split: sum.splits)

lemma read_loop_chunks_failure:
  assumes "js_split frame_end buffer = [buffer]"
  shows "read_loop parse (map Chunk cs @ ReadFailure # rest) buffer st
           = (False, handle_lines parse (frames_of (buffer @ concat cs)) st)"
  using assms
proof (induction cs arbitrary: buffer st)
  case Nil
  then show ?case by (simp add: frames_of_def handle_lines_Nil)
next
  case (Cons c cs)
  define L where "L = js_split frame_end (buffer @ c)"
  have b: "js_split frame_end (last L) = [last L]"
    unfolding L_def using frame_end_nonempty by (rule js_split_last)
  have sp: "js_split frame_end ((buffer @ c) @ concat cs)
              = butlast L @ js_split frame_end (last L @ concat cs)"
    unfolding L_def using frame_end_nonempty by (rule js_split_append)
  have "frames_of (buffer @ concat (c # cs)) = butlast L @ frames_of (last L @ concat cs)"
    using sp js_split_nonempty[OF frame_end_nonempty, of "last L @ concat cs"]
    by (simp add: frames_of_def butlast_append)
  moreover have "read_loop parse (map Chunk (c # cs) @ ReadFailure # rest) buffer st
      = read_loop parse (map Chunk cs @ ReadFailure # rest) (last L) (handle_lines parse (butlast L) st)"
    by (simp add: L_def Let_def)
  ultimately show ?case using Cons.IH[OF b] by (simp add: handle_lines_append)
qed

lemma handleUpload_chunks_failure:
  assumes "file st = Some f"
  shows "handleUpload parse (Body (map Chunk cs @ ReadFailure # rest)) st
           = (handle_lines parse (frames_of (concat cs)) (begin_upload st))
               \<lparr>result := network_error, isLoading := False\<rparr>"
proof -
  have "js_split frame_end [] = [[]]" using frame_end_nonempty by (rule js_split_Nil)
  hence "read_loop parse (map Chunk cs @ ReadFailure # rest) [] (begin_upload st)
           = (False, handle_lines parse (frames_of ([] @ concat cs)) (begin_upload st))"
    by (rule read_loop_chunks_failure)
  thus ?thesis using assms by (simp add: handleUpload_def receive_def finish_upload_def)
qed

lemma result_handle_line:
  "\<not> is_result_frame parse l \<Longrightarrow> result (handle_line parse st l) = result st"
  by (auto simp: is_result_frame_def is_result_event_def handle_line_def handle_data_def
      log_error_def split: option.splits)

lemma result_handle_lines:
  "\<forall>l \<in> set ls. \<not> is_result_frame parse l \<Longrightarrow> result (handle_lines parse ls st) = result st"
  by (induction ls arbitrary: st) (simp_all add: handle_lines_Nil handle_lines_Cons result_handle_line)

lemma steps_handle_line:
  "steps s = steps s' \<Longrightarrow> steps (handle_line parse s l) = steps (handle_line parse s' l)"
  by (simp add: handle_line_def handle_data_def on_success_def log_error_def Let_def
      split: option.splits sum.splits)

lemma steps_handle_lines:
  "steps s = steps s' \<Longrightarrow> steps (handle_lines parse ls s) = steps (handle_lines parse ls s')"
proof (induction ls arbitrary: s s')
  case Nil
  then show ?case by (simp add: handle_lines_Nil)
next
  case (Cons l ls)
  have "steps (handle_line parse s l) = steps (handle_line parse s' l)"
    using Cons.prems by (rule steps_handle_line)
  thus ?case unfolding handle_lines_Cons by (rule Cons.IH)
qed

section \<open>Evaluation on concrete snapshots\<close>

lemma fl_zero: "fl 0 = Fin 0"
  by (simp add: fl_def)

lemma tax_example: "js_mul (Fin 100) (js_div (Fin 8) (Fin 100)) = Fin 8"
  by code_simp

lemma total_example: "js_add (js_add (Fin 100) (Fin 8)) (Fin 5) = Fin 113"
proof -
  have "fl (100 + 8) = Fin 108" using fl_numeral[of "num.Bit0 (num.Bit0 (num.Bit1 (num.Bit1 (num.Bit0 (num.Bit1 num.One)))))"] by simp
  moreover have "fl (108 + 5) = Fin 113" using fl_int[of 113] by simp
  ultimately show ?thesis by simp
qed

lemma num_at_read: "read h v path = Some (VNum n) \<Longrightarrow> num_at h v path = Some n"
  by (simp add: num_at_def)

lemmas js_eval = handleEditField_def recompute_def spread_def walk.simps bind_def ret_def throw_def
  get_prop_def set_prop_def own_prop_def truthy_def starts_with_def array_get_def array_set_def
  array_index_def digit_val_def digits_value_def is_space_def parseInt_def number_key_def
  js_times_def js_plus_def js_divide_def to_number_def line_items_reduce_def show_nat.simps
  digit_char_def js_mul_def js_div_def fl_numeral fl_zero fl_one Let_def read_def num_at_def
  line_path_def line_totals_def js_split.simps

lemma sample_shape: "invoice_shape sample_heap 0 1 2 [3, 4] 5"
  by (simp add: invoice_shape_def sample_heap_def is_object_def has_numbers_def props_def
      own_prop_def is_number_def)

lemma empty_invoice_shape: "invoice_shape empty_invoice_heap 0 1 2 [] 3"
  by (simp add: invoice_shape_def empty_invoice_heap_def is_object_def has_numbers_def props_def
      own_prop_def is_number_def)

lemma show_nat_0: "show_nat 0 = ''0''"
  by (simp add: show_nat.simps digit_char_def)

lemma show_nat_1: "show_nat 1 = ''1''"
  by (simp add: show_nat.simps digit_char_def)

lemma num_at_Some: "num_at h v path = Some n \<longleftrightarrow> read h v path = Some (VNum n)"
  by (auto simp: num_at_def split: option.splits jsval.splits)

text \<open>
  C10. On the invoices page the page number is at least 1 at every moment: it starts at 1,
  Previous sets it to \<open>max(1, page - 1)\<close>, Next to \<open>page + 1\<close>, and after any sequence
  of Previous and Next clicks it is a whole number \<open>k\<close> with \<open>1 \<le> k\<close>.
\<close>

theorem page_number_at_least_one:
  "initial_page = Fin 1
   \<and> click p Previous = js_max (Fin 1) (js_sub p (Fin 1))
   \<and> click p Next = js_add p (Fin 1)
   \<and> (\<exists>k::int. page_after bs = Fin (of_int k) \<and> 1 \<le> k)"
proof -
  have "page_ok initial_page"
    unfolding page_ok_def initial_page_def by (intro exI[of _ 1]) simp
  hence "page_ok (page_after bs)" unfolding page_after_def by (rule foldl_click_page_ok)
  thus ?thesis by (auto simp: page_ok_def initial_page_def)
qed

section \<open>Edits of a quantity or a unit price\<close>

text \<open>
  C1. An edit of the quantity or the unit price of line \<open>i\<close>, with a number, returns a new
  snapshot in which the edited field holds the number, the total of the line is quantity
  times unit price, the subtotal is the sum of the totals of all lines (added from the
  left, starting at 0), the tax amount is subtotal times (tax rate / 100), and the grand
  total is subtotal plus tax amount plus shipping, all in binary64 arithmetic. The other
  factor of the line, the totals of the other lines, the tax rate and the shipping are
  the ones of the snapshot before the edit. With tax rate 8, subtotal 100 and shipping 5
  the tax amount is 8 and the grand total 113.
\<close>

theorem edit_quantity_or_unit_price_recomputes_totals:
  assumes shape: "invoice_shape h a ha la ias ta"
      and i: "i < length ias"
      and f: "f = ''quantity'' \<or> f = ''unit_price''"
  shows "\<exists>h' q p ts s r sh.
       handleEditField (VRef a) (line_path i f) (VNum v) h = (Inr (VRef (length h)), h')
     \<and> num_at h' (VRef (length h)) [''line_items'', show_nat i, f] = Some v
     \<and> num_at h' (VRef (length h)) [''line_items'', show_nat i, ''quantity''] = Some q
     \<and> num_at h' (VRef (length h)) [''line_items'', show_nat i, ''unit_price''] = Some p
     \<and> num_at h' (VRef (length h)) [''line_items'', show_nat i, ''total''] = Some (js_mul q p)
     \<and> num_at h' (VRef (length h)) [''line_items'', ''length''] = Some (Fin (of_nat (length ias)))
     \<and> line_totals h' (VRef (length h)) (length ias) = map Some ts
     \<and> num_at h' (VRef (length h)) [''totals'', ''subtotal''] = Some s
     \<and> s = foldl js_add (Fin 0) ts
     \<and> num_at h' (VRef (length h)) [''totals'', ''tax_rate''] = Some r
     \<and> num_at h' (VRef (length h)) [''totals'', ''shipping''] = Some sh
     \<and> num_at h' (VRef (length h)) [''totals'', ''tax_amount''] = Some (js_mul s (js_div r (Fin 100)))
     \<and> num_at h' (VRef (length h)) [''totals'', ''total'']
           = Some (js_add (js_add s (js_mul s (js_div r (Fin 100)))) sh)
     \<and> (f = ''quantity'' \<longrightarrow> num_at h (VRef a) [''line_items'', show_nat i, ''unit_price''] = Some p)
     \<and> (f = ''unit_price'' \<longrightarrow> num_at h (VRef a) [''line_items'', show_nat i, ''quantity''] = Some q)
     \<and> (\<forall>k < length ias. k \<noteq> i \<longrightarrow>
            num_at h (VRef a) [''line_items'', show_nat k, ''total''] = Some (ts ! k))
     \<and> num_at h (VRef a) [''totals'', ''tax_rate''] = Some r
     \<and> num_at h (VRef a) [''totals'', ''shipping''] = Some sh
     \<and> (s = Fin 100 \<and> r = Fin 8 \<and> sh = Fin 5 \<longrightarrow>
            num_at h' (VRef (length h)) [''totals'', ''tax_amount''] = Some (Fin 8)
          \<and> num_at h' (VRef (length h)) [''totals'', ''total''] = Some (Fin 113))"
proof -
  define new where "new = VRef (length h)"
  define old where "old = props h (ias ! i)"
  define pit where "pit = AList.update f (VNum v) old"
  define q where "q = the_num (own_prop pit ''quantity'')"
  define p where "p = the_num (own_prop pit ''unit_price'')"
  define r where "r = the_num (own_prop (props h ta) ''tax_rate'')"
  define sh where "sh = the_num (own_prop (props h ta) ''shipping'')"
  define ts where "ts = (map (\<lambda>j. the_num (own_prop (props h j) ''total'')) ias)[i := js_mul q p]"
  define s where "s = foldl js_add (Fin 0) ts"
  have fdot: "CHR ''.'' \<notin> set f" using f by auto
  have fproto: "f \<noteq> ''__proto__''" using f by auto
  have oq: "own_prop old ''quantity'' = VNum (the_num (own_prop old ''quantity''))"
    unfolding old_def using shape i by (intro shape_item_number) auto
  have op: "own_prop old ''unit_price'' = VNum (the_num (own_prop old ''unit_price''))"
    unfolding old_def using shape i by (intro shape_item_number) auto
  have pq: "own_prop pit ''quantity'' = VNum q"
    using oq by (auto simp: q_def pit_def own_prop_update the_num_def)
  have pp: "own_prop pit ''unit_price'' = VNum p"
    using op by (auto simp: p_def pit_def own_prop_update the_num_def)
  have pf: "own_prop pit f = VNum v" by (simp add: pit_def own_prop_update)
  have tr: "own_prop (props h ta) ''tax_rate'' = VNum r"
    unfolding r_def using shape by (intro shape_totals_number) auto
  have tsh: "own_prop (props h ta) ''shipping'' = VNum sh"
    unfolding sh_def using shape by (intro shape_totals_number) auto
  from edit_line_item_reads[OF shape i fdot pit_def[unfolded old_def] pq pp fproto]
  obtain h' s' where
    c: "handleEditField (VRef a) (line_path i f) (VNum v) h = (Inr (VRef (length h)), h')
      \<and> (\<forall>g. read h' (VRef (length h)) [''line_items'', show_nat i, g]
               = Some (if g = ''total'' then VNum (js_mul q p) else own_prop pit g))
      \<and> (\<forall>k g. k < length ias \<and> k \<noteq> i \<longrightarrow>
             read h' (VRef (length h)) [''line_items'', show_nat k, g]
               = read h (VRef a) [''line_items'', show_nat k, g])
      \<and> (\<forall>g. read h' (VRef (length h)) [''header'', g] = read h (VRef a) [''header'', g])
      \<and> s' = foldl js_add (Fin 0)
              ((map (\<lambda>j. the_num (own_prop (props h j) ''total'')) ias)[i := js_mul q p])
      \<and> (\<forall>g. read h' (VRef (length h)) [''totals'', g] = Some
             (if g = ''total'' then VNum (js_add (js_add s'
                   (js_mul s' (js_div (the_num (own_prop (props h ta) ''tax_rate'')) (Fin 100))))
                   (the_num (own_prop (props h ta) ''shipping'')))
              else if g = ''tax_amount'' then
                VNum (js_mul s' (js_div (the_num (own_prop (props h ta) ''tax_rate'')) (Fin 100)))
              else if g = ''subtotal'' then VNum s'
              else own_prop (props h ta) g))
      \<and> read h' (VRef (length h)) [''line_items'', ''length'']
            = Some (VNum (Fin (of_nat (length ias))))"
    by (elim exE)
  note c1 = c[THEN conjunct2]
  note c2 = c1[THEN conjunct2]
  note c3 = c2[THEN conjunct2]
  note c4 = c3[THEN conjunct2]
  note c5 = c4[THEN conjunct2]
  have run: "handleEditField (VRef a) (line_path i f) (VNum v) h = (Inr new, h')"
    using c[THEN conjunct1] by (simp only: new_def)
  have ri: "read h' new [''line_items'', show_nat i, g]
               = Some (if g = ''total'' then VNum (js_mul q p) else own_prop pit g)" for g
    using c1[THEN conjunct1] by (simp only: new_def)
  have rk: "k < length ias \<Longrightarrow> k \<noteq> i \<Longrightarrow> read h' new [''line_items'', show_nat k, g]
               = read h (VRef a) [''line_items'', show_nat k, g]" for k g
    using c2[THEN conjunct1] by (simp add: new_def)
  have s': "s' = s" using c4[THEN conjunct1] by (simp only: s_def ts_def)
  have rt: "read h' new [''totals'', g] = Some
             (if g = ''total'' then VNum (js_add (js_add s (js_mul s (js_div r (Fin 100)))) sh)
              else if g = ''tax_amount'' then VNum (js_mul s (js_div r (Fin 100)))
              else if g = ''subtotal'' then VNum s
              else own_prop (props h ta) g)" for g
    using c5[THEN conjunct1] by (simp only: new_def s' r_def sh_def)
  have rl: "read h' new [''line_items'', ''length''] = Some (VNum (Fin (of_nat (length ias))))"
    using c5[THEN conjunct2] by (simp only: new_def)
  have oldk: "read h (VRef a) [''line_items'', show_nat k, ''total'']
                = Some (VNum (the_num (own_prop (props h (ias ! k)) ''total'')))"
    if "k < length ias" for k
    using shape_read_item[OF shape that, of "''total''"] shape_item_number[OF shape that, of "''total''"]
    by simp
  have lt: "line_totals h' new (length ias) = map Some ts"
  proof (rule nth_equalityI)
    show "length (line_totals h' new (length ias)) = length (map Some ts)"
      by (simp add: line_totals_def ts_def)
  next
    fix k assume "k < length (line_totals h' new (length ias))"
    hence k: "k < length ias" by (simp add: line_totals_def)
    show "line_totals h' new (length ias) ! k = map Some ts ! k"
    proof (cases "k = i")
      case True
      then show ?thesis using k ri[of "''total''"] by (simp add: line_totals_def num_at_def ts_def)
    next
      case False
      then show ?thesis using k rk[OF k False, of "''total''"] oldk[OF k]
        by (simp add: line_totals_def num_at_def ts_def)
    qed
  qed
  have n_f: "num_at h' new [''line_items'', show_nat i, f] = Some v"
    using ri[of f] f pf by (intro num_at_read) auto
  have n_q: "num_at h' new [''line_items'', show_nat i, ''quantity''] = Some q"
    using ri[of "''quantity''"] pq by (intro num_at_read) simp
  have n_p: "num_at h' new [''line_items'', show_nat i, ''unit_price''] = Some p"
    using ri[of "''unit_price''"] pp by (intro num_at_read) simp
  have n_t: "num_at h' new [''line_items'', show_nat i, ''total''] = Some (js_mul q p)"
    using ri[of "''total''"] by (intro num_at_read) simp
  have n_l: "num_at h' new [''line_items'', ''length''] = Some (Fin (of_nat (length ias)))"
    using rl by (rule num_at_read)
  have n_s: "num_at h' new [''totals'', ''subtotal''] = Some s"
    using rt[of "''subtotal''"] by (intro num_at_read) simp
  have n_r: "num_at h' new [''totals'', ''tax_rate''] = Some r"
    using rt[of "''tax_rate''"] tr by (intro num_at_read) simp
  have n_sh: "num_at h' new [''totals'', ''shipping''] = Some sh"
    using rt[of "''shipping''"] tsh by (intro num_at_read) simp
  have n_tx: "num_at h' new [''totals'', ''tax_amount''] = Some (js_mul s (js_div r (Fin 100)))"
    using rt[of "''tax_amount''"] by (intro num_at_read) simp
  have n_g: "num_at h' new [''totals'', ''total'']
               = Some (js_add (js_add s (js_mul s (js_div r (Fin 100)))) sh)"
    using rt[of "''total''"] by (intro num_at_read) simp
  have o_p: "f = ''quantity'' \<longrightarrow> num_at h (VRef a) [''line_items'', show_nat i, ''unit_price''] = Some p"
  proof
    assume "f = ''quantity''"
    hence "own_prop old ''unit_price'' = VNum p" using pp by (simp add: pit_def own_prop_update)
    thus "num_at h (VRef a) [''line_items'', show_nat i, ''unit_price''] = Some p"
      using shape_read_item[OF shape i, of "''unit_price''"] by (intro num_at_read) (simp add: old_def)
  qed
  have o_q: "f = ''unit_price'' \<longrightarrow> num_at h (VRef a) [''line_items'', show_nat i, ''quantity''] = Some q"
  proof
    assume "f = ''unit_price''"
    hence "own_prop old ''quantity'' = VNum q" using pq by (simp add: pit_def own_prop_update)
    thus "num_at h (VRef a) [''line_items'', show_nat i, ''quantity''] = Some q"
      using shape_read_item[OF shape i, of "''quantity''"] by (intro num_at_read) (simp add: old_def)
  qed
  have o_k: "\<forall>k < length ias. k \<noteq> i \<longrightarrow>
            num_at h (VRef a) [''line_items'', show_nat k, ''total''] = Some (ts ! k)"
    using oldk by (auto simp: num_at_def ts_def)
  have o_r: "num_at h (VRef a) [''totals'', ''tax_rate''] = Some r"
    using shape_read_totals[OF shape, of "''tax_rate''"] tr by (intro num_at_read) simp
  have o_sh: "num_at h (VRef a) [''totals'', ''shipping''] = Some sh"
    using shape_read_totals[OF shape, of "''shipping''"] tsh by (intro num_at_read) simp
  have ex: "s = Fin 100 \<and> r = Fin 8 \<and> sh = Fin 5 \<longrightarrow>
            num_at h' new [''totals'', ''tax_amount''] = Some (Fin 8)
          \<and> num_at h' new [''totals'', ''total''] = Some (Fin 113)"
    using n_tx n_g tax_example total_example by auto
  show ?thesis
    unfolding new_def[symmetric]
    apply (rule exI[of _ h'], rule exI[of _ q], rule exI[of _ p], rule exI[of _ ts],
           rule exI[of _ s], rule exI[of _ r], rule exI[of _ sh])
    using run n_f n_q n_p n_t n_l lt n_s s_def n_r n_sh n_tx n_g o_p o_q o_k o_r o_sh ex
    apply (intro conjI)
    apply assumption+
    done
qed

theorem edit_quantity_or_unit_price_recomputes_totals_witness:
  "invoice_shape sample_heap 0 1 2 [3, 4] 5 \<and> (0::nat) < length [3::nat, 4]
   \<and> (\<exists>h'. handleEditField (VRef 0) (line_path 0 ''quantity'') (VNum (Fin 2)) sample_heap
               = (Inr (VRef 6), h')
         \<and> num_at h' (VRef 6) [''line_items'', ''0'', ''total''] = Some (Fin 20)
         \<and> num_at h' (VRef 6) [''totals'', ''subtotal''] = Some (Fin 100)
         \<and> num_at h' (VRef 6) [''totals'', ''tax_amount''] = Some (Fin 8)
         \<and> num_at h' (VRef 6) [''totals'', ''total''] = Some (Fin 113))"
proof -
  have i: "(0::nat) < length [3::nat, 4]" by simp
  have l: "length sample_heap = 6" by (simp add: sample_heap_def)
  have f: "''quantity'' = ''quantity'' \<or> ''quantity'' = ''unit_price''" by simp
  from edit_quantity_or_unit_price_recomputes_totals[OF sample_shape i f, of "Fin 2"]
  obtain h' q p ts s r sh where
    c: "handleEditField (VRef 0) (line_path 0 ''quantity'') (VNum (Fin 2)) sample_heap
          = (Inr (VRef (length sample_heap)), h')
      \<and> num_at h' (VRef (length sample_heap)) [''line_items'', show_nat 0, ''quantity''] = Some (Fin 2)
      \<and> num_at h' (VRef (length sample_heap)) [''line_items'', show_nat 0, ''quantity''] = Some q
      \<and> num_at h' (VRef (length sample_heap)) [''line_items'', show_nat 0, ''unit_price''] = Some p
      \<and> num_at h' (VRef (length sample_heap)) [''line_items'', show_nat 0, ''total''] = Some (js_mul q p)
      \<and> num_at h' (VRef (length sample_heap)) [''line_items'', ''length'']
            = Some (Fin (of_nat (length [3::nat, 4])))
      \<and> line_totals h' (VRef (length sample_heap)) (length [3::nat, 4]) = map Some ts
      \<and> num_at h' (VRef (length sample_heap)) [''totals'', ''subtotal''] = Some s
      \<and> s = foldl js_add (Fin 0) ts
      \<and> num_at h' (VRef (length sample_heap)) [''totals'', ''tax_rate''] = Some r
      \<and> num_at h' (VRef (length sample_heap)) [''totals'', ''shipping''] = Some sh
      \<and> num_at h' (VRef (length sample_heap)) [''totals'', ''tax_amount'']
            = Some (js_mul s (js_div r (Fin 100)))
      \<and> num_at h' (VRef (length sample_heap)) [''totals'', ''total'']
            = Some (js_add (js_add s (js_mul s (js_div r (Fin 100)))) sh)
      \<and> (''quantity'' = ''quantity'' \<longrightarrow>
            num_at sample_heap (VRef 0) [''line_items'', show_nat 0, ''unit_price''] = Some p)
      \<and> (''quantity'' = ''unit_price'' \<longrightarrow>
            num_at sample_heap (VRef 0) [''line_items'', show_nat 0, ''quantity''] = Some q)
      \<and> (\<forall>k < length [3::nat, 4]. k \<noteq> 0 \<longrightarrow>
            num_at sample_heap (VRef 0) [''line_items'', show_nat k, ''total''] = Some (ts ! k))
      \<and> num_at sample_heap (VRef 0) [''totals'', ''tax_rate''] = Some r
      \<and> num_at sample_heap (VRef 0) [''totals'', ''shipping''] = Some sh
      \<and> (s = Fin 100 \<and> r = Fin 8 \<and> sh = Fin 5 \<longrightarrow>
            num_at h' (VRef (length sample_heap)) [''totals'', ''tax_amount''] = Some (Fin 8)
          \<and> num_at h' (VRef (length sample_heap)) [''totals'', ''total''] = Some (Fin 113))"
    by (elim exE)
  note d0 = c[unfolded l show_nat_0]
  note d1 = d0[THEN conjunct2]
  note d2 = d1[THEN conjunct2]
  note d3 = d2[THEN conjunct2]
  note d4 = d3[THEN conjunct2]
  note d5 = d4[THEN conjunct2]
  note d6 = d5[THEN conjunct2]
  note d7 = d6[THEN conjunct2]
  note d8 = d7[THEN conjunct2]
  note d9 = d8[THEN conjunct2]
  note d10 = d9[THEN conjunct2]
  note d11 = d10[THEN conjunct2]
  note d12 = d11[THEN conjunct2]
  note d13 = d12[THEN conjunct2]
  note d14 = d13[THEN conjunct2]
  note d15 = d14[THEN conjunct2]
  note d16 = d15[THEN conjunct2]
  note d17 = d16[THEN conjunct2]
  note d18 = d17[THEN conjunct2]
  have run: "handleEditField (VRef 0) (line_path 0 ''quantity'') (VNum (Fin 2)) sample_heap
              = (Inr (VRef 6), h')" by (rule d0[THEN conjunct1])
  have nf: "num_at h' (VRef 6) [''line_items'', ''0'', ''quantity''] = Some (Fin 2)"
    by (rule d1[THEN conjunct1])
  have nq: "num_at h' (VRef 6) [''line_items'', ''0'', ''quantity''] = Some q"
    by (rule d2[THEN conjunct1])
  have nt: "num_at h' (VRef 6) [''line_items'', ''0'', ''total''] = Some (js_mul q p)"
    by (rule d4[THEN conjunct1])
  have lt: "line_totals h' (VRef 6) 2 = map Some ts"
    using d6[THEN conjunct1] by (simp add: numeral_2_eq_2)
  have ns: "num_at h' (VRef 6) [''totals'', ''subtotal''] = Some s"
    by (rule d7[THEN conjunct1])
  have s: "s = foldl js_add (Fin 0) ts" by (rule d8[THEN conjunct1])
  have op: "num_at sample_heap (VRef 0) [''line_items'', ''0'', ''unit_price''] = Some p"
    using d13[THEN conjunct1] by simp
  have ok: "\<forall>k < 2. k \<noteq> 0 \<longrightarrow>
            num_at sample_heap (VRef 0) [''line_items'', show_nat k, ''total''] = Some (ts ! k)"
    using d15[THEN conjunct1] by (simp add: numeral_2_eq_2)
  have orr: "num_at sample_heap (VRef 0) [''totals'', ''tax_rate''] = Some r"
    by (rule d16[THEN conjunct1])
  have osh: "num_at sample_heap (VRef 0) [''totals'', ''shipping''] = Some sh"
    by (rule d17[THEN conjunct1])
  have ex: "s = Fin 100 \<and> r = Fin 8 \<and> sh = Fin 5 \<longrightarrow>
            num_at h' (VRef 6) [''totals'', ''tax_amount''] = Some (Fin 8)
          \<and> num_at h' (VRef 6) [''totals'', ''total''] = Some (Fin 113)"
    by (rule d18)
  have q: "q = Fin 2" using nf nq by simp
  have p: "p = Fin 10" using op by (simp add: js_eval sample_heap_def)
  have r: "r = Fin 8" using orr by (simp add: js_eval sample_heap_def)
  have sh: "sh = Fin 5" using osh by (simp add: js_eval sample_heap_def)
  have t0: "js_mul q p = Fin 20" by (simp add: q p js_mul_def fl_numeral)
  have "length (line_totals h' (VRef 6) 2) = 2" by (simp add: line_totals_def)
  hence len: "length ts = 2" using lt by simp
  have "line_totals h' (VRef 6) 2 ! 0 = Some (ts ! 0)" using lt len by simp
  hence ts0: "ts ! 0 = Fin 20" using nt t0 by (simp add: line_totals_def show_nat_0 numeral_2_eq_2)
  have "num_at sample_heap (VRef 0) [''line_items'', show_nat 1, ''total''] = Some (ts ! 1)"
    using ok by simp
  hence ts1: "ts ! 1 = Fin 80" by (simp add: js_eval sample_heap_def)
  have "ts = [ts ! 0, ts ! 1]" using len by (intro nth_equalityI) (auto simp: less_Suc_eq numeral_2_eq_2)
  hence "ts = [Fin 20, Fin 80]" using ts0 ts1 by simp
  hence s100: "s = Fin 100" using s by (simp add: fl_numeral)
  have tax: "num_at h' (VRef 6) [''totals'', ''tax_amount''] = Some (Fin 8)"
    and tot: "num_at h' (VRef 6) [''totals'', ''total''] = Some (Fin 113)"
    using ex s100 r sh by simp_all
  have nt': "num_at h' (VRef 6) [''line_items'', ''0'', ''total''] = Some (Fin 20)"
    using nt t0 by simp
  have ns': "num_at h' (VRef 6) [''totals'', ''subtotal''] = Some (Fin 100)"
    using ns s100 by simp
  show ?thesis
    using sample_shape i run nt' ns' tax tot by (intro conjI exI[of _ h']) assumption+
qed

section \<open>Edits of other fields\<close>

text \<open>
  C5 (amended). An edit of a header field (a property name without a dot, other than
  \<^verbatim>\<open>__proto__\<close>, in a path that does not contain \<^verbatim>\<open>line_items\<close>) applies the value as
  it is and recomputes nothing, whether or not the invoice has line items: every line
  item and every field of the totals reads as before. An edit of the
  description or the item number of line \<open>i\<close> applies the value as it is and leaves
  quantity, unit price, the other lines, tax rate and shipping as they were, but the path
  contains \<^verbatim>\<open>line_items\<close>, so the total of the line, the subtotal, the tax amount and
  the grand total are computed again from them; they keep their values when the snapshot
  already satisfied the four equations.
\<close>

theorem edit_other_field_effects:
  assumes shape: "invoice_shape h a ha la ias ta"
  shows "(CHR ''.'' \<notin> set k \<and> k \<noteq> ''__proto__''
            \<and> \<not> js_includes (''header.'' @ k) ''line_items'' \<longrightarrow>
          (\<exists>h'. handleEditField (VRef a) (''header.'' @ k) x h = (Inr (VRef (length h)), h')
          \<and> read h' (VRef (length h)) [''header'', k] = Some x
          \<and> (\<forall>g. g \<noteq> k \<longrightarrow>
                read h' (VRef (length h)) [''header'', g] = read h (VRef a) [''header'', g])
          \<and> (\<forall>j g. j < length ias \<longrightarrow>
                read h' (VRef (length h)) [''line_items'', show_nat j, g]
                  = read h (VRef a) [''line_items'', show_nat j, g])
          \<and> (\<forall>g. read h' (VRef (length h)) [''totals'', g] = read h (VRef a) [''totals'', g])))
       \<and> (i < length ias \<and> (f = ''description'' \<or> f = ''item_number'') \<longrightarrow>
          (\<exists>h' q p ts s r sh.
            handleEditField (VRef a) (line_path i f) x h = (Inr (VRef (length h)), h')
          \<and> read h' (VRef (length h)) [''line_items'', show_nat i, f] = Some x
          \<and> (\<forall>g. g \<noteq> f \<and> g \<noteq> ''total'' \<longrightarrow>
                read h' (VRef (length h)) [''line_items'', show_nat i, g]
                  = read h (VRef a) [''line_items'', show_nat i, g])
          \<and> (\<forall>j g. j < length ias \<and> j \<noteq> i \<longrightarrow>
                read h' (VRef (length h)) [''line_items'', show_nat j, g]
                  = read h (VRef a) [''line_items'', show_nat j, g])
          \<and> (\<forall>g. g \<noteq> ''subtotal'' \<and> g \<noteq> ''tax_amount'' \<and> g \<noteq> ''total'' \<longrightarrow>
                read h' (VRef (length h)) [''totals'', g] = read h (VRef a) [''totals'', g])
          \<and> num_at h (VRef a) [''line_items'', show_nat i, ''quantity''] = Some q
          \<and> num_at h (VRef a) [''line_items'', show_nat i, ''unit_price''] = Some p
          \<and> num_at h (VRef a) [''totals'', ''tax_rate''] = Some r
          \<and> num_at h (VRef a) [''totals'', ''shipping''] = Some sh
          \<and> num_at h' (VRef (length h)) [''line_items'', show_nat i, ''total''] = Some (js_mul q p)
          \<and> line_totals h' (VRef (length h)) (length ias) = map Some ts
          \<and> s = foldl js_add (Fin 0) ts
          \<and> num_at h' (VRef (length h)) [''totals'', ''subtotal''] = Some s
          \<and> num_at h' (VRef (length h)) [''totals'', ''tax_amount'']
                = Some (js_mul s (js_div r (Fin 100)))
          \<and> num_at h' (VRef (length h)) [''totals'', ''total'']
                = Some (js_add (js_add s (js_mul s (js_div r (Fin 100)))) sh)
          \<and> (num_at h (VRef a) [''line_items'', show_nat i, ''total''] = Some (js_mul q p)
             \<and> num_at h (VRef a) [''totals'', ''subtotal''] = Some s
             \<and> num_at h (VRef a) [''totals'', ''tax_amount''] = Some (js_mul s (js_div r (Fin 100)))
             \<and> num_at h (VRef a) [''totals'', ''total'']
                  = Some (js_add (js_add s (js_mul s (js_div r (Fin 100)))) sh)
             \<longrightarrow> (\<forall>g. g \<noteq> f \<longrightarrow>
                     read h' (VRef (length h)) [''line_items'', show_nat i, g]
                       = read h (VRef a) [''line_items'', show_nat i, g])
                 \<and> (\<forall>g. read h' (VRef (length h)) [''totals'', g]
                           = read h (VRef a) [''totals'', g]))))"
proof (intro conjI impI)
  assume hk: "CHR ''.'' \<notin> set k \<and> k \<noteq> ''__proto__''
            \<and> \<not> js_includes (''header.'' @ k) ''line_items''"
  note k = hk[THEN conjunct1]
  note kp = hk[THEN conjunct2, THEN conjunct1]
  note inc = hk[THEN conjunct2, THEN conjunct2]
  from edit_header_reads[OF shape k inc kp, of x] obtain h' where
    c: "handleEditField (VRef a) (''header.'' @ k) x h = (Inr (VRef (length h)), h')
      \<and> (\<forall>g. read h' (VRef (length h)) [''header'', g]
               = Some (if g = k then x else own_prop (props h ha) g))
      \<and> (\<forall>j g. j < length ias \<longrightarrow>
             read h' (VRef (length h)) [''line_items'', show_nat j, g]
               = read h (VRef a) [''line_items'', show_nat j, g])
      \<and> (\<forall>g. read h' (VRef (length h)) [''totals'', g] = read h (VRef a) [''totals'', g])" ..
  note c1 = c[THEN conjunct2]
  note c2 = c1[THEN conjunct2]
  have rh: "read h' (VRef (length h)) [''header'', g]
               = Some (if g = k then x else own_prop (props h ha) g)" for g
    using c1[THEN conjunct1] by simp
  have "read h' (VRef (length h)) [''header'', k] = Some x" using rh[of k] by simp
  moreover have "\<forall>g. g \<noteq> k \<longrightarrow>
       read h' (VRef (length h)) [''header'', g] = read h (VRef a) [''header'', g]"
    using rh shape_read_header[OF shape] by simp
  ultimately show "\<exists>h'. handleEditField (VRef a) (''header.'' @ k) x h = (Inr (VRef (length h)), h')
          \<and> read h' (VRef (length h)) [''header'', k] = Some x
          \<and> (\<forall>g. g \<noteq> k \<longrightarrow>
                read h' (VRef (length h)) [''header'', g] = read h (VRef a) [''header'', g])
          \<and> (\<forall>j g. j < length ias \<longrightarrow>
                read h' (VRef (length h)) [''line_items'', show_nat j, g]
                  = read h (VRef a) [''line_items'', show_nat j, g])
          \<and> (\<forall>g. read h' (VRef (length h)) [''totals'', g] = read h (VRef a) [''totals'', g])"
    using c[THEN conjunct1] c2[THEN conjunct1] c2[THEN conjunct2]
    by (intro exI[of _ h'] conjI) assumption+
next
  assume hi: "i < length ias \<and> (f = ''description'' \<or> f = ''item_number'')"
  note i = hi[THEN conjunct1]
  note f = hi[THEN conjunct2]
  define new where "new = VRef (length h)"
  define old where "old = props h (ias ! i)"
  define pit where "pit = AList.update f x old"
  define q where "q = the_num (own_prop old ''quantity'')"
  define p where "p = the_num (own_prop old ''unit_price'')"
  define r where "r = the_num (own_prop (props h ta) ''tax_rate'')"
  define sh where "sh = the_num (own_prop (props h ta) ''shipping'')"
  define ts where "ts = (map (\<lambda>j. the_num (own_prop (props h j) ''total'')) ias)[i := js_mul q p]"
  define s where "s = foldl js_add (Fin 0) ts"
  define tx where "tx = js_mul s (js_div r (Fin 100))"
  define gt where "gt = js_add (js_add s tx) sh"
  have fdot: "CHR ''.'' \<notin> set f" using f by auto
  have fproto: "f \<noteq> ''__proto__''" using f by auto
  have oq: "own_prop old ''quantity'' = VNum q"
    unfolding old_def q_def using shape i by (intro shape_item_number) auto
  have op: "own_prop old ''unit_price'' = VNum p"
    unfolding old_def p_def using shape i by (intro shape_item_number) auto
  have ot: "own_prop old ''total'' = VNum (the_num (own_prop old ''total''))"
    unfolding old_def using shape i by (intro shape_item_number) auto
  have pq: "own_prop pit ''quantity'' = VNum q" using oq f by (auto simp: pit_def own_prop_update)
  have pp: "own_prop pit ''unit_price'' = VNum p" using op f by (auto simp: pit_def own_prop_update)
  have tnum: "g \<in> {''subtotal'', ''tax_rate'', ''tax_amount'', ''shipping'', ''total''} \<Longrightarrow>
      own_prop (props h ta) g = VNum (the_num (own_prop (props h ta) g))" for g
    using shape by (rule shape_totals_number)
  have tr: "own_prop (props h ta) ''tax_rate'' = VNum r" unfolding r_def by (rule tnum) simp
  have tsh: "own_prop (props h ta) ''shipping'' = VNum sh" unfolding sh_def by (rule tnum) simp
  from edit_line_item_reads[OF shape i fdot pit_def[unfolded old_def] pq pp fproto]
  obtain h' s' where
    c: "handleEditField (VRef a) (line_path i f) x h = (Inr (VRef (length h)), h')
      \<and> (\<forall>g. read h' (VRef (length h)) [''line_items'', show_nat i, g]
               = Some (if g = ''total'' then VNum (js_mul q p) else own_prop pit g))
      \<and> (\<forall>k g. k < length ias \<and> k \<noteq> i \<longrightarrow>
             read h' (VRef (length h)) [''line_items'', show_nat k, g]
               = read h (VRef a) [''line_items'', show_nat k, g])
      \<and> (\<forall>g. read h' (VRef (length h)) [''header'', g] = read h (VRef a) [''header'', g])
      \<and> s' = foldl js_add (Fin 0)
              ((map (\<lambda>j. the_num (own_prop (props h j) ''total'')) ias)[i := js_mul q p])
      \<and> (\<forall>g. read h' (VRef (length h)) [''totals'', g] = Some
             (if g = ''total'' then VNum (js_add (js_add s'
                   (js_mul s' (js_div (the_num (own_prop (props h ta) ''tax_rate'')) (Fin 100))))
                   (the_num (own_prop (props h ta) ''shipping'')))
              else if g = ''tax_amount'' then
                VNum (js_mul s' (js_div (the_num (own_prop (props h ta) ''tax_rate'')) (Fin 100)))
              else if g = ''subtotal'' then VNum s'
              else own_prop (props h ta) g))
      \<and> read h' (VRef (length h)) [''line_items'', ''length'']
            = Some (VNum (Fin (of_nat (length ias))))"
    by (elim exE)
  note c1 = c[THEN conjunct2]
  note c2 = c1[THEN conjunct2]
  note c3 = c2[THEN conjunct2]
  note c4 = c3[THEN conjunct2]
  note c5 = c4[THEN conjunct2]
  have run: "handleEditField (VRef a) (line_path i f) x h = (Inr new, h')"
    using c[THEN conjunct1] by (simp only: new_def)
  have ri: "read h' new [''line_items'', show_nat i, g]
               = Some (if g = ''total'' then VNum (js_mul q p) else own_prop pit g)" for g
    using c1[THEN conjunct1] by (simp only: new_def)
  have rk: "\<forall>j g. j < length ias \<and> j \<noteq> i \<longrightarrow> read h' new [''line_items'', show_nat j, g]
               = read h (VRef a) [''line_items'', show_nat j, g]"
    using c2[THEN conjunct1] by (simp only: new_def)
  have s': "s' = s" using c4[THEN conjunct1] by (simp only: s_def ts_def)
  have rt: "read h' new [''totals'', g] = Some
             (if g = ''total'' then VNum gt
              else if g = ''tax_amount'' then VNum tx
              else if g = ''subtotal'' then VNum s
              else own_prop (props h ta) g)" for g
    using c5[THEN conjunct1] by (simp only: new_def s' r_def sh_def tx_def gt_def)
  have oi: "read h (VRef a) [''line_items'', show_nat i, g] = Some (own_prop old g)" for g
    unfolding old_def using shape i by (rule shape_read_item)
  have oldk: "read h (VRef a) [''line_items'', show_nat j, ''total'']
                = Some (VNum (the_num (own_prop (props h (ias ! j)) ''total'')))"
    if "j < length ias" for j
    using shape_read_item[OF shape that, of "''total''"] shape_item_number[OF shape that, of "''total''"]
    by simp
  have otot: "read h (VRef a) [''totals'', g] = Some (own_prop (props h ta) g)" for g
    using shape by (rule shape_read_totals)
  have lt: "line_totals h' new (length ias) = map Some ts"
  proof (rule nth_equalityI)
    show "length (line_totals h' new (length ias)) = length (map Some ts)"
      by (simp add: line_totals_def ts_def)
  next
    fix j assume "j < length (line_totals h' new (length ias))"
    hence j: "j < length ias" by (simp add: line_totals_def)
    show "line_totals h' new (length ias) ! j = map Some ts ! j"
    proof (cases "j = i")
      case True
      then show ?thesis using j ri[of "''total''"] by (simp add: line_totals_def num_at_def ts_def)
    next
      case False
      then show ?thesis using j rk oldk[OF j]
        by (simp add: line_totals_def num_at_def ts_def)
    qed
  qed
  have a1: "read h' new [''line_items'', show_nat i, f] = Some x"
    using ri[of f] f by (auto simp: pit_def own_prop_update)
  have a2: "\<forall>g. g \<noteq> f \<and> g \<noteq> ''total'' \<longrightarrow>
       read h' new [''line_items'', show_nat i, g] = read h (VRef a) [''line_items'', show_nat i, g]"
    using ri oi by (simp add: pit_def own_prop_update)
  have a4: "\<forall>g. g \<noteq> ''subtotal'' \<and> g \<noteq> ''tax_amount'' \<and> g \<noteq> ''total'' \<longrightarrow>
       read h' new [''totals'', g] = read h (VRef a) [''totals'', g]"
    using rt otot by simp
  have a5: "num_at h (VRef a) [''line_items'', show_nat i, ''quantity''] = Some q"
    using oi[of "''quantity''"] oq by (intro num_at_read) simp
  have a6: "num_at h (VRef a) [''line_items'', show_nat i, ''unit_price''] = Some p"
    using oi[of "''unit_price''"] op by (intro num_at_read) simp
  have a7: "num_at h (VRef a) [''totals'', ''tax_rate''] = Some r"
    using otot[of "''tax_rate''"] tr by (intro num_at_read) simp
  have a8: "num_at h (VRef a) [''totals'', ''shipping''] = Some sh"
    using otot[of "''shipping''"] tsh by (intro num_at_read) simp
  have a9: "num_at h' new [''line_items'', show_nat i, ''total''] = Some (js_mul q p)"
    using ri[of "''total''"] by (intro num_at_read) simp
  have a11: "num_at h' new [''totals'', ''subtotal''] = Some s"
    using rt[of "''subtotal''"] by (intro num_at_read) simp
  have a12: "num_at h' new [''totals'', ''tax_amount''] = Some (js_mul s (js_div r (Fin 100)))"
    using rt[of "''tax_amount''"] by (intro num_at_read) (simp add: tx_def)
  have a13: "num_at h' new [''totals'', ''total'']
                = Some (js_add (js_add s (js_mul s (js_div r (Fin 100)))) sh)"
    using rt[of "''total''"] by (intro num_at_read) (simp add: tx_def gt_def)
  have a14: "num_at h (VRef a) [''line_items'', show_nat i, ''total''] = Some (js_mul q p)
             \<and> num_at h (VRef a) [''totals'', ''subtotal''] = Some s
             \<and> num_at h (VRef a) [''totals'', ''tax_amount''] = Some (js_mul s (js_div r (Fin 100)))
             \<and> num_at h (VRef a) [''totals'', ''total'']
                  = Some (js_add (js_add s (js_mul s (js_div r (Fin 100)))) sh)
             \<longrightarrow> (\<forall>g. g \<noteq> f \<longrightarrow>
                     read h' new [''line_items'', show_nat i, g]
                       = read h (VRef a) [''line_items'', show_nat i, g])
                 \<and> (\<forall>g. read h' new [''totals'', g] = read h (VRef a) [''totals'', g])"
  proof (intro impI, elim conjE)
    assume e1: "num_at h (VRef a) [''line_items'', show_nat i, ''total''] = Some (js_mul q p)"
       and e2: "num_at h (VRef a) [''totals'', ''subtotal''] = Some s"
       and e3: "num_at h (VRef a) [''totals'', ''tax_amount''] = Some (js_mul s (js_div r (Fin 100)))"
       and e4: "num_at h (VRef a) [''totals'', ''total'']
                  = Some (js_add (js_add s (js_mul s (js_div r (Fin 100)))) sh)"
    have o1: "own_prop old ''total'' = VNum (js_mul q p)"
      using e1 oi[of "''total''"] by (simp add: num_at_Some)
    have o2: "own_prop (props h ta) ''subtotal'' = VNum s"
      using e2 otot[of "''subtotal''"] by (simp add: num_at_Some)
    have o3: "own_prop (props h ta) ''tax_amount'' = VNum tx"
      using e3 otot[of "''tax_amount''"] by (simp add: num_at_Some tx_def)
    have o4: "own_prop (props h ta) ''total'' = VNum gt"
      using e4 otot[of "''total''"] by (simp add: num_at_Some tx_def gt_def)
    have "\<forall>g. g \<noteq> f \<longrightarrow> read h' new [''line_items'', show_nat i, g]
                       = read h (VRef a) [''line_items'', show_nat i, g]"
      using ri oi o1 by (simp add: pit_def own_prop_update)
    moreover have "\<forall>g. read h' new [''totals'', g] = read h (VRef a) [''totals'', g]"
      using rt otot o2 o3 o4 by simp
    ultimately show "(\<forall>g. g \<noteq> f \<longrightarrow>
                     read h' new [''line_items'', show_nat i, g]
                       = read h (VRef a) [''line_items'', show_nat i, g])
                 \<and> (\<forall>g. read h' new [''totals'', g] = read h (VRef a) [''totals'', g])"
      by (rule conjI)
  qed
  show "\<exists>h' q p ts s r sh.
            handleEditField (VRef a) (line_path i f) x h = (Inr (VRef (length h)), h')
          \<and> read h' (VRef (length h)) [''line_items'', show_nat i, f] = Some x
          \<and> (\<forall>g. g \<noteq> f \<and> g \<noteq> ''total'' \<longrightarrow>
                read h' (VRef (length h)) [''line_items'', show_nat i, g]
                  = read h (VRef a) [''line_items'', show_nat i, g])
          \<and> (\<forall>j g. j < length ias \<and> j \<noteq> i \<longrightarrow>
                read h' (VRef (length h)) [''line_items'', show_nat j, g]
                  = read h (VRef a) [''line_items'', show_nat j, g])
          \<and> (\<forall>g. g \<noteq> ''subtotal'' \<and> g \<noteq> ''tax_amount'' \<and> g \<noteq> ''total'' \<longrightarrow>
                read h' (VRef (length h)) [''totals'', g] = read h (VRef a) [''totals'', g])
          \<and> num_at h (VRef a) [''line_items'', show_nat i, ''quantity''] = Some q
          \<and> num_at h (VRef a) [''line_items'', show_nat i, ''unit_price''] = Some p
          \<and> num_at h (VRef a) [''totals'', ''tax_rate''] = Some r
          \<and> num_at h (VRef a) [''totals'', ''shipping''] = Some sh
          \<and> num_at h' (VRef (length h)) [''line_items'', show_nat i, ''total''] = Some (js_mul q p)
          \<and> line_totals h' (VRef (length h)) (length ias) = map Some ts
          \<and> s = foldl js_add (Fin 0) ts
          \<and> num_at h' (VRef (length h)) [''totals'', ''subtotal''] = Some s
          \<and> num_at h' (VRef (length h)) [''totals'', ''tax_amount'']
                = Some (js_mul s (js_div r (Fin 100)))
          \<and> num_at h' (VRef (length h)) [''totals'', ''total'']
                = Some (js_add (js_add s (js_mul s (js_div r (Fin 100)))) sh)
          \<and> (num_at h (VRef a) [''line_items'', show_nat i, ''total''] = Some (js_mul q p)
             \<and> num_at h (VRef a) [''totals'', ''subtotal''] = Some s
             \<and> num_at h (VRef a) [''totals'', ''tax_amount''] = Some (js_mul s (js_div r (Fin 100)))
             \<and> num_at h (VRef a) [''totals'', ''total'']
                  = Some (js_add (js_add s (js_mul s (js_div r (Fin 100)))) sh)
             \<longrightarrow> (\<forall>g. g \<noteq> f \<longrightarrow>
                     read h' (VRef (length h)) [''line_items'', show_nat i, g]
                       = read h (VRef a) [''line_items'', show_nat i, g])
                 \<and> (\<forall>g. read h' (VRef (length h)) [''totals'', g]
                           = read h (VRef a) [''totals'', g]))"
    unfolding new_def[symmetric]
    apply (rule exI[of _ h'], rule exI[of _ q], rule exI[of _ p], rule exI[of _ ts],
           rule exI[of _ s], rule exI[of _ r], rule exI[of _ sh])
    using run a1 a2 rk a4 a5 a6 a7 a8 a9 lt s_def a11 a12 a13 a14
    apply (intro conjI)
    apply assumption+
    done
qed

theorem edit_other_field_effects_witness:
  "invoice_shape sample_heap 0 1 2 [3, 4] 5
   \<and> invoice_shape empty_invoice_heap 0 1 2 [] 3
   \<and> (\<exists>h'. handleEditField (VRef 0) (''header.'' @ ''invoice_number'') (VStr ''washer'') sample_heap
               = (Inr (VRef 6), h')
         \<and> read h' (VRef 6) [''header'', ''invoice_number''] = Some (VStr ''washer'')
         \<and> read h' (VRef 6) [''totals'', ''total''] = Some (VNum (Fin 119)))
   \<and> (\<exists>h'. handleEditField (VRef 0) (''header.'' @ ''invoice_number'') (VStr ''washer'') empty_invoice_heap
               = (Inr (VRef 4), h')
         \<and> read h' (VRef 4) [''header'', ''invoice_number''] = Some (VStr ''washer'')
         \<and> read h' (VRef 4) [''totals'', ''total''] = Some (VNum (Fin 0)))
   \<and> (\<exists>h'. handleEditField (VRef 0) (line_path 0 ''description'') (VStr ''washer'') sample_heap
               = (Inr (VRef 6), h')
         \<and> read h' (VRef 6) [''line_items'', ''0'', ''description''] = Some (VStr ''washer'')
         \<and> num_at h' (VRef 6) [''line_items'', ''0'', ''total''] = Some (Fin 20))"
proof -
  have k: "CHR ''.'' \<notin> set ''invoice_number'' \<and> ''invoice_number'' \<noteq> ''__proto__''
            \<and> \<not> js_includes (''header.'' @ ''invoice_number'') ''line_items''"
    by (simp add: starts_with_def)
  have i: "(0::nat) < length [3::nat, 4] \<and> (''description'' = ''description'' \<or> ''description'' = ''item_number'')"
    by simp
  have l: "length sample_heap = 6" by (simp add: sample_heap_def)
  have l0: "length empty_invoice_heap = 4" by (simp add: empty_invoice_heap_def)
  note T = edit_other_field_effects[OF sample_shape, where k = "''invoice_number''"
             and x = "VStr ''washer''" and i = 0 and f = "''description''", unfolded l show_nat_0]
  note T0 = edit_other_field_effects[OF empty_invoice_shape, where k = "''invoice_number''"
             and x = "VStr ''washer''" and i = 0 and f = "''description''", unfolded l0]
  from T[THEN conjunct1, THEN mp, OF k] obtain h1 where
    c: "handleEditField (VRef 0) (''header.'' @ ''invoice_number'') (VStr ''washer'') sample_heap
          = (Inr (VRef 6), h1)
      \<and> read h1 (VRef 6) [''header'', ''invoice_number''] = Some (VStr ''washer'')
      \<and> (\<forall>g. g \<noteq> ''invoice_number'' \<longrightarrow>
            read h1 (VRef 6) [''header'', g] = read sample_heap (VRef 0) [''header'', g])
      \<and> (\<forall>j g. j < length [3::nat, 4] \<longrightarrow>
            read h1 (VRef 6) [''line_items'', show_nat j, g]
              = read sample_heap (VRef 0) [''line_items'', show_nat j, g])
      \<and> (\<forall>g. read h1 (VRef 6) [''totals'', g] = read sample_heap (VRef 0) [''totals'', g])" ..
  have "read h1 (VRef 6) [''totals'', ''total''] = read sample_heap (VRef 0) [''totals'', ''total'']"
    using c by blast
  hence t1: "read h1 (VRef 6) [''totals'', ''total''] = Some (VNum (Fin 119))"
    by (simp add: js_eval sample_heap_def)
  have p1: "\<exists>h'. handleEditField (VRef 0) (''header.'' @ ''invoice_number'') (VStr ''washer'') sample_heap
               = (Inr (VRef 6), h')
         \<and> read h' (VRef 6) [''header'', ''invoice_number''] = Some (VStr ''washer'')
         \<and> read h' (VRef 6) [''totals'', ''total''] = Some (VNum (Fin 119))"
    using c[THEN conjunct1] c[THEN conjunct2, THEN conjunct1] t1
    by (intro exI[of _ h1] conjI) assumption+
  from T0[THEN conjunct1, THEN mp, OF k] obtain h0 where
    c0: "handleEditField (VRef 0) (''header.'' @ ''invoice_number'') (VStr ''washer'') empty_invoice_heap
          = (Inr (VRef 4), h0)
      \<and> read h0 (VRef 4) [''header'', ''invoice_number''] = Some (VStr ''washer'')
      \<and> (\<forall>g. g \<noteq> ''invoice_number'' \<longrightarrow>
            read h0 (VRef 4) [''header'', g] = read empty_invoice_heap (VRef 0) [''header'', g])
      \<and> (\<forall>j g. j < length ([]::nat list) \<longrightarrow>
            read h0 (VRef 4) [''line_items'', show_nat j, g]
              = read empty_invoice_heap (VRef 0) [''line_items'', show_nat j, g])
      \<and> (\<forall>g. read h0 (VRef 4) [''totals'', g] = read empty_invoice_heap (VRef 0) [''totals'', g])" ..
  note c01 = c0[THEN conjunct2]
  note c02 = c01[THEN conjunct2]
  note c03 = c02[THEN conjunct2]
  have "read h0 (VRef 4) [''totals'', ''total''] = read empty_invoice_heap (VRef 0) [''totals'', ''total'']"
    using c03[THEN conjunct2] by (rule spec)
  hence t0: "read h0 (VRef 4) [''totals'', ''total''] = Some (VNum (Fin 0))"
    by (simp add: js_eval empty_invoice_heap_def)
  have p0: "\<exists>h'. handleEditField (VRef 0) (''header.'' @ ''invoice_number'') (VStr ''washer'') empty_invoice_heap
               = (Inr (VRef 4), h')
         \<and> read h' (VRef 4) [''header'', ''invoice_number''] = Some (VStr ''washer'')
         \<and> read h' (VRef 4) [''totals'', ''total''] = Some (VNum (Fin 0))"
    using c0[THEN conjunct1] c01[THEN conjunct1] t0
    by (intro exI[of _ h0] conjI) assumption+
  from T[THEN conjunct2, THEN mp, OF i] obtain h2 q p ts s r sh where
    d: "handleEditField (VRef 0) (line_path 0 ''description'') (VStr ''washer'') sample_heap
          = (Inr (VRef 6), h2)
      \<and> read h2 (VRef 6) [''line_items'', ''0'', ''description''] = Some (VStr ''washer'')
      \<and> (\<forall>g. g \<noteq> ''description'' \<and> g \<noteq> ''total'' \<longrightarrow>
                read h2 (VRef 6) [''line_items'', ''0'', g]
                  = read sample_heap (VRef 0) [''line_items'', ''0'', g])
      \<and> (\<forall>j g. j < length [3::nat, 4] \<and> j \<noteq> 0 \<longrightarrow>
                read h2 (VRef 6) [''line_items'', show_nat j, g]
                  = read sample_heap (VRef 0) [''line_items'', show_nat j, g])
      \<and> (\<forall>g. g \<noteq> ''subtotal'' \<and> g \<noteq> ''tax_amount'' \<and> g \<noteq> ''total'' \<longrightarrow>
                read h2 (VRef 6) [''totals'', g] = read sample_heap (VRef 0) [''totals'', g])
      \<and> num_at sample_heap (VRef 0) [''line_items'', ''0'', ''quantity''] = Some q
      \<and> num_at sample_heap (VRef 0) [''line_items'', ''0'', ''unit_price''] = Some p
      \<and> num_at sample_heap (VRef 0) [''totals'', ''tax_rate''] = Some r
      \<and> num_at sample_heap (VRef 0) [''totals'', ''shipping''] = Some sh
      \<and> num_at h2 (VRef 6) [''line_items'', ''0'', ''total''] = Some (js_mul q p)
      \<and> line_totals h2 (VRef 6) (length [3::nat, 4]) = map Some ts
      \<and> s = foldl js_add (Fin 0) ts
      \<and> num_at h2 (VRef 6) [''totals'', ''subtotal''] = Some s
      \<and> num_at h2 (VRef 6) [''totals'', ''tax_amount'']
                = Some (js_mul s (js_div r (Fin 100)))
      \<and> num_at h2 (VRef 6) [''totals'', ''total'']
                = Some (js_add (js_add s (js_mul s (js_div r (Fin 100)))) sh)
      \<and> (num_at sample_heap (VRef 0) [''line_items'', ''0'', ''total''] = Some (js_mul q p)
             \<and> num_at sample_heap (VRef 0) [''totals'', ''subtotal''] = Some s
             \<and> num_at sample_heap (VRef 0) [''totals'', ''tax_amount''] = Some (js_mul s (js_div r (Fin 100)))
             \<and> num_at sample_heap (VRef 0) [''totals'', ''total'']
                  = Some (js_add (js_add s (js_mul s (js_div r (Fin 100)))) sh)
             \<longrightarrow> (\<forall>g. g \<noteq> ''description'' \<longrightarrow>
                     read h2 (VRef 6) [''line_items'', ''0'', g]
                       = read sample_heap (VRef 0) [''line_items'', ''0'', g])
                 \<and> (\<forall>g. read h2 (VRef 6) [''totals'', g]
                           = read sample_heap (VRef 0) [''totals'', g]))"
    by (elim exE)
  note d1 = d[THEN conjunct2]
  note d2 = d1[THEN conjunct2]
  note d3 = d2[THEN conjunct2]
  note d4 = d3[THEN conjunct2]
  note d5 = d4[THEN conjunct2]
  note d6 = d5[THEN conjunct2]
  note d7 = d6[THEN conjunct2]
  note d8 = d7[THEN conjunct2]
  note d9 = d8[THEN conjunct2]
  have q: "q = Fin 2" using d5[THEN conjunct1] by (simp add: js_eval sample_heap_def)
  have p: "p = Fin 10" using d6[THEN conjunct1] by (simp add: js_eval sample_heap_def)
  have "js_mul q p = Fin 20" by (simp add: q p js_mul_def fl_numeral)
  hence t2: "num_at h2 (VRef 6) [''line_items'', ''0'', ''total''] = Some (Fin 20)"
    using d9[THEN conjunct1] by simp
  have p2: "\<exists>h'. handleEditField (VRef 0) (line_path 0 ''description'') (VStr ''washer'') sample_heap
               = (Inr (VRef 6), h')
         \<and> read h' (VRef 6) [''line_items'', ''0'', ''description''] = Some (VStr ''washer'')
         \<and> num_at h' (VRef 6) [''line_items'', ''0'', ''total''] = Some (Fin 20)"
    using d[THEN conjunct1] d1[THEN conjunct1] t2
    by (intro exI[of _ h2] conjI) assumption+
  show ?thesis using sample_shape empty_invoice_shape p1 p0 p2 by (intro conjI) assumption+
qed

text \<open>
  The claim as first stated, that such an edit leaves the total of the line and the
  totals as they were, fails on a snapshot whose totals were not consistent: the
  description of line 0 is edited, and the total of the line goes from 25 to 20, the
  subtotal from 105 to 100, the tax amount from 9 to 8 and the grand total from 119 to 113.
\<close>

theorem description_edit_recomputes_counterexample:
  "num_at sample_heap (VRef 0) [''line_items'', ''0'', ''total''] = Some (Fin 25)
   \<and> num_at sample_heap (VRef 0) [''totals'', ''subtotal''] = Some (Fin 105)
   \<and> num_at sample_heap (VRef 0) [''totals'', ''tax_amount''] = Some (Fin 9)
   \<and> num_at sample_heap (VRef 0) [''totals'', ''total''] = Some (Fin 119)
   \<and> fst (handleEditField (VRef 0) ''line_items.0.description'' (VStr ''washer'') sample_heap)
        = Inr (VRef 6)
   \<and> num_at (snd (handleEditField (VRef 0) ''line_items.0.description'' (VStr ''washer'') sample_heap))
        (VRef 6) [''line_items'', ''0'', ''total''] = Some (Fin 20)
   \<and> num_at (snd (handleEditField (VRef 0) ''line_items.0.description'' (VStr ''washer'') sample_heap))
        (VRef 6) [''totals'', ''subtotal''] = Some (Fin 100)
   \<and> num_at (snd (handleEditField (VRef 0) ''line_items.0.description'' (VStr ''washer'') sample_heap))
        (VRef 6) [''totals'', ''tax_amount''] = Some (Fin 8)
   \<and> num_at (snd (handleEditField (VRef 0) ''line_items.0.description'' (VStr ''washer'') sample_heap))
        (VRef 6) [''totals'', ''total''] = Some (Fin 113)"
proof -
  have d: "fl (2 / 25) = Fin (5764607523034235 / 72057594037927936)" by code_simp
  have tx: "fl (144115188075855875 / 18014398509481984) = Fin 8" by code_simp
  show ?thesis by (simp add: js_eval sample_heap_def d tx)
qed

section \<open>The input snapshot after an edit\<close>

text \<open>
  C4. \<^verbatim>\<open>{ ...editedData }\<close> copies the top-level object only. The header, the line items
  and the totals of the new snapshot are the objects of the input snapshot, and the
  assignment writes into them: after editing the invoice number through the new snapshot,
  the input snapshot (address 0) reads the new number as well. The function
  \<^verbatim>\<open>handleSaveEdits\<close> of the same file copies every level it changes.
\<close>

theorem header_edit_writes_into_input_snapshot:
  "read sample_heap (VRef 0) [''header'', ''invoice_number''] = Some (VStr ''INV-1'')
   \<and> fst (handleEditField (VRef 0) ''header.invoice_number'' (VStr ''INV-2'') sample_heap)
        = Inr (VRef 6)
   \<and> read (snd (handleEditField (VRef 0) ''header.invoice_number'' (VStr ''INV-2'') sample_heap))
        (VRef 6) [''header'', ''invoice_number''] = Some (VStr ''INV-2'')
   \<and> read (snd (handleEditField (VRef 0) ''header.invoice_number'' (VStr ''INV-2'') sample_heap))
        (VRef 0) [''header'', ''invoice_number''] = Some (VStr ''INV-2'')"
  by (simp add: js_eval sample_heap_def)

section \<open>The step list of a session\<close>

text \<open>
  C2 (amended). After any sequence of step events in one session, the step list holds
  each step id once, in the order in which the ids were first seen, and each entry
  carries the status of the most recent event for its id and the most recent message
  that was not absent or empty (when no event for the id had such a message: the message
  of the first event for it).
\<close>

theorem step_list_after_events:
  "map step_id (steps_after evs) = map JStr (first_seen (map fst evs))
   \<and> distinct (map step_id (steps_after evs))
   \<and> (\<forall>s \<in> set (steps_after evs). \<exists>i. step_id s = JStr i
          \<and> status s = last_status i evs \<and> message s = kept_message i evs)"
proof -
  have inv: "steps_inv evs" by (rule steps_inv_all)
  have "distinct (map JStr (first_seen (map fst evs)))"
    by (simp add: distinct_map distinct_first_seen inj_on_def)
  thus ?thesis using inv by (simp add: steps_inv_def)
qed

theorem step_list_after_events_witness:
  "map step_id (steps_after sample_events) = [JStr ''upload'', JStr ''analyze'']
   \<and> distinct (map step_id (steps_after sample_events))
   \<and> last_status ''upload'' sample_events = JStr ''complete''
   \<and> kept_message ''upload'' sample_events = JStr ''Reading''"
proof -
  have "first_seen (map fst sample_events) = [''upload'', ''analyze'']"
    by (simp add: sample_events_def)
  moreover have "last_status ''upload'' sample_events = JStr ''complete''"
    by (simp add: step_eval)
  moreover have "kept_message ''upload'' sample_events = JStr ''Reading''"
    by (simp add: step_eval)
  ultimately show ?thesis using step_list_after_events[of sample_events] by simp
qed

text \<open>
  The claim as first stated, that the entry carries the most recent message received,
  fails when the most recent event carries an empty (or no) message: the entry keeps the
  earlier one.
\<close>

theorem latest_message_not_shown_counterexample:
  "step_id (steps_after sample_events ! 0) = JStr ''upload''
   \<and> status (steps_after sample_events ! 0) = JStr ''complete''
   \<and> message (steps_after sample_events ! 0) = JStr ''Reading''
   \<and> last_message ''upload'' sample_events = JStr []
   \<and> message (steps_after sample_events ! 0) \<noteq> last_message ''upload'' sample_events"
  by (simp add: step_eval)

text \<open>
  C9. A repeated step event whose message is absent or the empty string replaces the
  status of the entry and keeps the message it had; no other entry changes and none is
  added.
\<close>

theorem updateStep_keeps_message_when_none_given:
  assumes "s \<in> set prev" and "step_id s = JStr i" and "msg = JUndef \<or> msg = JStr []"
  shows "updateStep (JStr i) st msg prev
           = map (\<lambda>t. if step_id t = JStr i then t\<lparr>status := st\<rparr> else t) prev"
proof -
  have "JStr i \<in> step_id ` set prev" using assms(1,2) by force
  moreover have "\<not> jtruthy msg" using assms(3) by auto
  ultimately show ?thesis by (simp add: updateStep_present)
qed

theorem updateStep_keeps_message_when_none_given_witness:
  "updateStep (JStr ''upload'') (JStr ''complete'') JUndef
     [\<lparr>step_id = JStr ''upload'', label = JStr ''Reading image'', status = JStr ''active'',
       message = JStr ''Reading''\<rparr>]
   = [\<lparr>step_id = JStr ''upload'', label = JStr ''Reading image'', status = JStr ''complete'',
       message = JStr ''Reading''\<rparr>]"
  using updateStep_keeps_message_when_none_given[of
      "\<lparr>step_id = JStr ''upload'', label = JStr ''Reading image'', status = JStr ''active'',
        message = JStr ''Reading''\<rparr>"
      "[\<lparr>step_id = JStr ''upload'', label = JStr ''Reading image'', status = JStr ''active'',
        message = JStr ''Reading''\<rparr>]" "''upload''" JUndef "JStr ''complete''"]
  by simp

text \<open>
  C6. A frame whose payload is not valid JSON does not end the session. It is logged and
  skipped: the session ends in the state it would have reached on the same stream without
  that frame, with one more logged error. The payload is on one line, and the theorem holds
  however the text of the stream is cut into chunks.
\<close>

theorem malformed_frame_is_logged_and_skipped:
  assumes "file st = Some f"
    and "last (js_split frame_end before) = []"
    and "CHR 0x0A \<notin> set payload"
    and "parse payload = None"
    and "concat cs = before @ sse payload @ after"
    and "concat cs' = before @ after"
  shows "handleUpload parse (Body (map Chunk cs)) st
           = log_error (handleUpload parse (Body (map Chunk cs')) st)"
proof -
  let ?b = "begin_upload st"
  have f1: "frames_of (concat cs) = frames_of before @ (''data: '' @ payload) # frames_of after"
    using assms(2,3,5) by (simp add: frames_of_append sse_frames)
  have f2: "frames_of (concat cs') = frames_of before @ frames_of after"
    using assms(2,6) by (simp add: frames_of_append)
  have "handle_lines parse (frames_of (concat cs)) ?b
          = handle_lines parse (frames_of after) (log_error (handle_lines parse (frames_of before) ?b))"
    using assms(4) by (simp add: f1 handle_lines_append handle_lines_Cons handle_line_data)
  also have "\<dots> = log_error (handle_lines parse (frames_of (concat cs')) ?b)"
    by (simp add: f2 handle_lines_append handle_lines_log)
  finally have "handle_lines parse (frames_of (concat cs)) ?b
                  = log_error (handle_lines parse (frames_of (concat cs')) ?b)" .
  thus ?thesis using assms(1) by (simp add: handleUpload_chunks log_error_def)
qed

theorem malformed_frame_is_logged_and_skipped_witness:
  "handleUpload sample_parse (Body (map Chunk [sse step_text @ ''data: {oops'', frame_end @ sse failure_text])) sample_state
     = log_error (handleUpload sample_parse (Body (map Chunk [sse step_text, sse failure_text])) sample_state)
   \<and> steps (handleUpload sample_parse (Body (map Chunk [sse step_text @ ''data: {oops'', frame_end @ sse failure_text])) sample_state)
       = [\<lparr>step_id = JStr ''save'', label = JStr ''Saving to database'', status = JStr ''active'', message = JUndef\<rparr>]
   \<and> result (handleUpload sample_parse (Body (map Chunk [sse step_text @ ''data: {oops'', frame_end @ sse failure_text])) sample_state)
       = JObj [(''success'', JBool False), (''error'', JObj [(''code'', JStr ''ERR_EXTRACT'')])]
   \<and> consoleErrors (handleUpload sample_parse (Body (map Chunk [sse step_text @ ''data: {oops'', frame_end @ sse failure_text])) sample_state) = 1"
proof -
  have a: "file sample_state = Some (File ''invoice.png'')" by (simp add: sample_state_def)
  have b: "last (js_split frame_end (sse step_text)) = []"
    by (simp add: js_split.simps sse_def step_text_def frame_end_def starts_with_def)
  have c: "CHR 0x0A \<notin> set ''{oops''" by simp
  have d: "sample_parse ''{oops'' = None"
    by (simp add: sample_parse_def failure_text_def step_text_def second_text_def)
  have e: "concat [sse step_text @ ''data: {oops'', frame_end @ sse failure_text]
             = sse step_text @ sse ''{oops'' @ sse failure_text"
    by (simp add: sse_def)
  have g: "concat [sse step_text, sse failure_text] = sse step_text @ sse failure_text" by simp
  have h: "CHR 0x0A \<notin> set step_text" "CHR 0x0A \<notin> set failure_text"
    by (simp_all add: step_text_def failure_text_def)
  have fr: "frames_of (sse step_text @ sse failure_text) = [''data: '' @ step_text, ''data: '' @ failure_text]"
    using sse_frames[OF h(1), of "sse failure_text"] sse_frames[OF h(2), of "[]"]
    by (simp add: frames_of_empty)
  have p1: "sample_parse step_text = Some step_value"
    by (simp add: sample_parse_def failure_text_def step_text_def)
  have p2: "sample_parse failure_text = Some failure_value"
    by (simp add: sample_parse_def)
  have ev: "handleUpload sample_parse (Body (map Chunk [sse step_text, sse failure_text])) sample_state
      = sample_state\<lparr>isLoading := False, result := JObj [(''success'', JBool False), (''error'', JObj [(''code'', JStr ''ERR_EXTRACT'')])],
           steps := [\<lparr>step_id = JStr ''save'', label = JStr ''Saving to database'', status = JStr ''active'', message = JUndef\<rparr>],
           processingComplete := False, showProcessingModal := True\<rparr>"
    unfolding handleUpload_chunks[OF a] g fr
    by (simp add: handle_lines_Cons handle_lines_Nil handle_line_data p1 p2 handle_data_def
        step_value_def failure_value_def begin_upload_def sample_state_def step_eval jprop_def)
  have t: "handleUpload sample_parse (Body (map Chunk [sse step_text @ ''data: {oops'', frame_end @ sse failure_text])) sample_state
     = log_error (handleUpload sample_parse (Body (map Chunk [sse step_text, sse failure_text])) sample_state)"
    using a b c d e g
    by (rule malformed_frame_is_logged_and_skipped[where parse = sample_parse and payload = "''{oops''"])
  show ?thesis unfolding t ev by (simp add: log_error_def sample_state_def)
qed

text \<open>
  C7. When the request fails, or the response has no body, or a read of the body fails,
  the session ends with the fixed failure result: \<open>success\<close> is \<open>false\<close> and the error code is
  \<^verbatim>\<open>ERR_NETWORK\<close>, whatever was received before; the result is not \<open>null\<close> and the loading
  flag is cleared.
\<close>

theorem transport_failure_gives_network_error:
  assumes "file st = Some f"
    and "resp = FetchFailure \<or> resp = NoBody \<or> (\<exists>rs. resp = Body rs \<and> ReadFailure \<in> set rs)"
  shows "result (handleUpload parse resp st) = network_error
       \<and> jprop (result (handleUpload parse resp st)) ''success'' = JBool False
       \<and> jprop (jprop (result (handleUpload parse resp st)) ''error'') ''code'' = JStr ''ERR_NETWORK''
       \<and> result (handleUpload parse resp st) \<noteq> JNull
       \<and> \<not> isLoading (handleUpload parse resp st)"
proof -
  have "fst (receive parse resp (begin_upload st)) = False"
    using assms(2) by (auto simp: receive_def read_loop_failure)
  then obtain st' where "receive parse resp (begin_upload st) = (False, st')"
    by (cases "receive parse resp (begin_upload st)") simp
  hence "result (handleUpload parse resp st) = network_error \<and> \<not> isLoading (handleUpload parse resp st)"
    using assms(1) by (simp add: handleUpload_def finish_upload_def)
  thus ?thesis by (simp add: network_error_def jprop_def)
qed

theorem transport_failure_gives_network_error_witness:
  "result (handleUpload sample_parse (Body [Chunk (sse failure_text), ReadFailure]) sample_state) = network_error
   \<and> jprop (jprop (result (handleUpload sample_parse (Body [Chunk (sse failure_text), ReadFailure]) sample_state)) ''error'') ''code''
       = JStr ''ERR_NETWORK''
   \<and> result (handleUpload sample_parse FetchFailure sample_state) = network_error"
proof -
  have a: "file sample_state = Some (File ''invoice.png'')" by (simp add: sample_state_def)
  have b: "Body [Chunk (sse failure_text), ReadFailure] = FetchFailure
         \<or> Body [Chunk (sse failure_text), ReadFailure] = NoBody
         \<or> (\<exists>rs. Body [Chunk (sse failure_text), ReadFailure] = Body rs \<and> ReadFailure \<in> set rs)"
    by simp
  have c: "FetchFailure = FetchFailure \<or> FetchFailure = NoBody
         \<or> (\<exists>rs. FetchFailure = Body rs \<and> ReadFailure \<in> set rs)"
    by simp
  show ?thesis
    using transport_failure_gives_network_error[OF a b, of sample_parse]
      transport_failure_gives_network_error[OF a c, of sample_parse]
    by (simp add: network_error_def jprop_def)
qed

text \<open>
  C8. With a file selected, an upload first resets the session: the step list is empty,
  the result is \<open>null\<close> and the completion flag is cleared before the response is read, and
  the state the upload ends in does not depend on the step list, the result or the
  completion flag it started from.
\<close>

theorem new_upload_discards_previous_session:
  assumes "file st = Some f"
  shows "steps (begin_upload st) = [] \<and> result (begin_upload st) = JNull
       \<and> \<not> processingComplete (begin_upload st)
       \<and> handleUpload parse resp st = finish_upload (receive parse resp (begin_upload st))
       \<and> handleUpload parse resp (st\<lparr>steps := ss, result := r, processingComplete := b\<rparr>)
           = handleUpload parse resp st"
  using assms by (simp add: handleUpload_def begin_upload_def)

theorem new_upload_discards_previous_session_witness:
  "steps sample_state \<noteq> [] \<and> result sample_state \<noteq> JNull \<and> processingComplete sample_state
   \<and> steps (begin_upload sample_state) = [] \<and> result (begin_upload sample_state) = JNull
   \<and> \<not> processingComplete (begin_upload sample_state)
   \<and> handleUpload sample_parse (Body []) sample_state
       = sample_state\<lparr>steps := [], result := JNull, processingComplete := False,
                       showProcessingModal := True\<rparr>
   \<and> handleUpload sample_parse (Body []) (sample_state\<lparr>steps := [], result := JNull, processingComplete := False\<rparr>)
       = handleUpload sample_parse (Body []) sample_state"
proof -
  have a: "file sample_state = Some (File ''invoice.png'')" by (simp add: sample_state_def)
  have e: "finish_upload (receive sample_parse (Body []) (begin_upload sample_state))
             = sample_state\<lparr>steps := [], result := JNull, processingComplete := False,
                             showProcessingModal := True\<rparr>"
    by (simp add: finish_upload_def receive_def begin_upload_def sample_state_def)
  have s: "steps sample_state \<noteq> [] \<and> result sample_state \<noteq> JNull \<and> processingComplete sample_state"
    by (simp add: sample_state_def)
  show ?thesis
    using new_upload_discards_previous_session[where parse = sample_parse and resp = "Body []"
        and ss = "[]" and r = JNull and b = False, OF a] s
    unfolding e by simp
qed

text \<open>
  C3 (amended). The loop has no exit on a result event. It handles every complete frame
  of the text received, in order, until the stream ends or a read fails. When the stream
  ends, the frames after a result event have been handled like the ones before it: the
  step list is the one that the frames of the whole stream build, and the result exposed
  is the one of the last result event. When a read fails, the frames completed by the
  chunks read before it have been handled in the same way, and the result exposed is the
  network failure.
\<close>

theorem frames_are_handled_until_the_stream_ends:
  assumes "file st = Some f"
  shows "handleUpload parse (Body (map Chunk cs)) st
           = (handle_lines parse (frames_of (concat cs)) (begin_upload st))\<lparr>isLoading := False\<rparr>
       \<and> handleUpload parse (Body (map Chunk cs @ ReadFailure # rest)) st
           = (handle_lines parse (frames_of (concat cs)) (begin_upload st))
               \<lparr>result := network_error, isLoading := False\<rparr>
       \<and> (frames_of (concat cs) = earlier @ (''data: '' @ payload) # later
            \<and> parse payload = Some d \<and> is_result_event d
          \<longrightarrow> handleUpload parse (Body (map Chunk cs)) st
                = (handle_lines parse later
                     (handle_data d (handle_lines parse earlier (begin_upload st))))
                  \<lparr>isLoading := False\<rparr>
            \<and> steps (handleUpload parse (Body (map Chunk cs)) st)
                = steps (handle_lines parse (earlier @ later) (begin_upload st))
            \<and> ((\<forall>l \<in> set later. \<not> is_result_frame parse l)
                 \<longrightarrow> result (handleUpload parse (Body (map Chunk cs)) st) = result_of d))"
proof (intro conjI impI)
  show "handleUpload parse (Body (map Chunk cs)) st
           = (handle_lines parse (frames_of (concat cs)) (begin_upload st))\<lparr>isLoading := False\<rparr>"
    using assms by (rule handleUpload_chunks)
next
  show "handleUpload parse (Body (map Chunk cs @ ReadFailure # rest)) st
           = (handle_lines parse (frames_of (concat cs)) (begin_upload st))
               \<lparr>result := network_error, isLoading := False\<rparr>"
    using assms by (rule handleUpload_chunks_failure)
next
  assume h: "frames_of (concat cs) = earlier @ (''data: '' @ payload) # later
            \<and> parse payload = Some d \<and> is_result_event d"
  let ?s = "handle_lines parse earlier (begin_upload st)"
  have rd: "is_result_event d" using h by simp
  have hd: "handle_line parse s (''data: '' @ payload) = handle_data d s" for s
    using h by (simp add: handle_line_data)
  have all: "handle_lines parse (frames_of (concat cs)) (begin_upload st)
               = handle_lines parse later (handle_data d ?s)"
    unfolding h[THEN conjunct1] handle_lines_append by (simp only: handle_lines_Cons hd)
  show run: "handleUpload parse (Body (map Chunk cs)) st
               = (handle_lines parse later (handle_data d ?s))\<lparr>isLoading := False\<rparr>"
    unfolding handleUpload_chunks[OF assms] all ..
  have "steps (handle_data d ?s) = steps ?s" using result_handle_data[OF rd] by simp
  hence "steps (handle_lines parse later (handle_data d ?s)) = steps (handle_lines parse later ?s)"
    by (rule steps_handle_lines)
  thus "steps (handleUpload parse (Body (map Chunk cs)) st)
                = steps (handle_lines parse (earlier @ later) (begin_upload st))"
    unfolding run by (simp add: handle_lines_append)
  assume "\<forall>l \<in> set later. \<not> is_result_frame parse l"
  hence "result (handle_lines parse later (handle_data d ?s)) = result (handle_data d ?s)"
    by (rule result_handle_lines)
  thus "result (handleUpload parse (Body (map Chunk cs)) st) = result_of d"
    unfolding run using result_handle_data[OF rd] by simp
qed

theorem frames_are_handled_until_the_stream_ends_witness:
  "result (handleUpload sample_parse
             (Body [Chunk (sse failure_text @ sse step_text), Chunk (sse second_text)]) sample_state)
     = JObj [(''success'', JBool False), (''error'', JObj [(''code'', JStr ''ERR_LATE'')])]
   \<and> steps (handleUpload sample_parse
             (Body [Chunk (sse failure_text @ sse step_text), Chunk (sse second_text)]) sample_state)
     = [\<lparr>step_id = JStr ''save'', label = JStr ''Saving to database'', status = JStr ''active'',
          message = JUndef\<rparr>]
   \<and> result (handleUpload sample_parse
             (Body [Chunk (sse failure_text @ sse step_text), Chunk (sse second_text), ReadFailure])
             sample_state)
     = network_error
   \<and> steps (handleUpload sample_parse
             (Body [Chunk (sse failure_text @ sse step_text), Chunk (sse second_text), ReadFailure])
             sample_state)
     = [\<lparr>step_id = JStr ''save'', label = JStr ''Saving to database'', status = JStr ''active'',
          message = JUndef\<rparr>]
   \<and> result (handleUpload sample_parse (Body [Chunk (sse failure_text), Chunk (sse step_text)])
               sample_state)
     = JObj [(''success'', JBool False), (''error'', JObj [(''code'', JStr ''ERR_EXTRACT'')])]
   \<and> steps (handleUpload sample_parse (Body [Chunk (sse failure_text), Chunk (sse step_text)])
               sample_state)
     = [\<lparr>step_id = JStr ''save'', label = JStr ''Saving to database'', status = JStr ''active'',
          message = JUndef\<rparr>]"
proof -
  let ?cs = "[sse failure_text @ sse step_text, sse second_text]"
  let ?earlier = "[''data: '' @ failure_text, ''data: '' @ step_text]"
  have a: "file sample_state = Some (File ''invoice.png'')" by (simp add: sample_state_def)
  have h: "CHR 0x0A \<notin> set step_text" "CHR 0x0A \<notin> set failure_text" "CHR 0x0A \<notin> set second_text"
    by (simp_all add: step_text_def failure_text_def second_text_def)
  have fr: "frames_of (concat ?cs) = ?earlier @ (''data: '' @ second_text) # []"
    using sse_frames[OF h(2), of "sse step_text @ sse second_text"]
      sse_frames[OF h(1), of "sse second_text"] sse_frames[OF h(3), of "[]"]
    by (simp add: frames_of_empty)
  have p1: "sample_parse step_text = Some step_value"
    by (simp add: sample_parse_def failure_text_def step_text_def)
  have p2: "sample_parse failure_text = Some failure_value"
    by (simp add: sample_parse_def)
  have p3: "sample_parse second_text = Some second_value"
    by (simp add: sample_parse_def failure_text_def step_text_def second_text_def)
  have e: "is_result_event second_value"
    by (simp add: is_result_event_def second_value_def jprop_def)
  have r: "result_of second_value
             = JObj [(''success'', JBool False), (''error'', JObj [(''code'', JStr ''ERR_LATE'')])]"
    by (simp add: result_of_def second_value_def jprop_def)
  have n: "\<forall>l \<in> set ([]::string list). \<not> is_result_frame sample_parse l" by simp
  have st: "steps (handle_lines sample_parse (?earlier @ []) (begin_upload sample_state))
      = [\<lparr>step_id = JStr ''save'', label = JStr ''Saving to database'', status = JStr ''active'',
           message = JUndef\<rparr>]"
    by (simp add: handle_lines_Cons handle_lines_Nil handle_line_data p1 p2 handle_data_def
        step_value_def failure_value_def begin_upload_def sample_state_def step_eval jprop_def)
  have st3: "steps (handle_lines sample_parse (frames_of (concat ?cs)) (begin_upload sample_state))
      = [\<lparr>step_id = JStr ''save'', label = JStr ''Saving to database'', status = JStr ''active'',
           message = JUndef\<rparr>]"
    unfolding fr
    by (simp add: handle_lines_Cons handle_lines_Nil handle_line_data p1 p2 p3 handle_data_def
        step_value_def failure_value_def second_value_def begin_upload_def sample_state_def
        step_eval jprop_def)
  note t = frames_are_handled_until_the_stream_ends[where st = sample_state
      and parse = sample_parse and cs = ?cs and rest = "[]" and earlier = ?earlier
      and payload = second_text and d = second_value and later = "[]", OF a]
  note t2 = t[THEN conjunct2, THEN conjunct1]
  note u = t[THEN conjunct2, THEN conjunct2, THEN mp, OF conjI[OF fr conjI[OF p3 e]]]
  note u3 = u[THEN conjunct2, THEN conjunct2, THEN mp, OF n]
  have g1: "result (handleUpload sample_parse (Body (map Chunk ?cs)) sample_state)
     = JObj [(''success'', JBool False), (''error'', JObj [(''code'', JStr ''ERR_LATE'')])]"
    using u3 unfolding r .
  have g2: "steps (handleUpload sample_parse (Body (map Chunk ?cs)) sample_state)
     = [\<lparr>step_id = JStr ''save'', label = JStr ''Saving to database'', status = JStr ''active'',
          message = JUndef\<rparr>]"
    using u[THEN conjunct2, THEN conjunct1] unfolding st .
  have g3: "result (handleUpload sample_parse (Body (map Chunk ?cs @ ReadFailure # [])) sample_state)
     = network_error"
    unfolding t2 by simp
  have g4: "steps (handleUpload sample_parse (Body (map Chunk ?cs @ ReadFailure # [])) sample_state)
     = [\<lparr>step_id = JStr ''save'', label = JStr ''Saving to database'', status = JStr ''active'',
          message = JUndef\<rparr>]"
    unfolding t2 using st3 by simp
  let ?ds = "[sse failure_text, sse step_text]"
  have fr': "frames_of (concat ?ds) = [] @ (''data: '' @ failure_text) # [''data: '' @ step_text]"
    using sse_frames[OF h(2), of "sse step_text"] sse_frames[OF h(1), of "[]"]
    by (simp add: frames_of_empty)
  have e': "is_result_event failure_value"
    by (simp add: is_result_event_def failure_value_def jprop_def)
  have r': "result_of failure_value
             = JObj [(''success'', JBool False), (''error'', JObj [(''code'', JStr ''ERR_EXTRACT'')])]"
    by (simp add: result_of_def failure_value_def jprop_def)
  have n': "\<forall>l \<in> set [''data: '' @ step_text]. \<not> is_result_frame sample_parse l"
    by (simp add: is_result_frame_def starts_with_def p1 is_result_event_def step_value_def
        jprop_def)
  have st': "steps (handle_lines sample_parse ([] @ [''data: '' @ step_text]) (begin_upload sample_state))
      = [\<lparr>step_id = JStr ''save'', label = JStr ''Saving to database'', status = JStr ''active'',
           message = JUndef\<rparr>]"
    by (simp add: handle_lines_Cons handle_lines_Nil handle_line_data p1 handle_data_def
        step_value_def begin_upload_def sample_state_def step_eval jprop_def)
  note t' = frames_are_handled_until_the_stream_ends[where st = sample_state
      and parse = sample_parse and cs = ?ds and rest = "[]" and earlier = "[]"
      and payload = failure_text and d = failure_value and later = "[''data: '' @ step_text]", OF a]
  note u' = t'[THEN conjunct2, THEN conjunct2, THEN mp, OF conjI[OF fr' conjI[OF p2 e']]]
  note u3' = u'[THEN conjunct2, THEN conjunct2, THEN mp, OF n']
  have g5: "result (handleUpload sample_parse (Body (map Chunk ?ds)) sample_state)
     = JObj [(''success'', JBool False), (''error'', JObj [(''code'', JStr ''ERR_EXTRACT'')])]"
    using u3' unfolding r' .
  have g6: "steps (handleUpload sample_parse (Body (map Chunk ?ds)) sample_state)
     = [\<lparr>step_id = JStr ''save'', label = JStr ''Saving to database'', status = JStr ''active'',
          message = JUndef\<rparr>]"
    using u'[THEN conjunct2, THEN conjunct1] unfolding st' .
  show ?thesis using g1 g2 g3 g4 g5 g6 by simp
qed

text \<open>
  C3 as stated fails. On a stream with a failed result, then a step event, then a second
  failed result, the step event that follows the first result adds a step to the list
  and the second result replaces the first.
\<close>

theorem frames_after_result_counterexample:
  "result (handleUpload sample_parse (Body [Chunk (sse failure_text)]) sample_state)
     = JObj [(''success'', JBool False), (''error'', JObj [(''code'', JStr ''ERR_EXTRACT'')])]
   \<and> steps (handleUpload sample_parse (Body [Chunk (sse failure_text)]) sample_state) = []
   \<and> result (handleUpload sample_parse (Body [Chunk (sse failure_text @ sse step_text @ sse second_text)]) sample_state)
     = JObj [(''success'', JBool False), (''error'', JObj [(''code'', JStr ''ERR_LATE'')])]
   \<and> steps (handleUpload sample_parse (Body [Chunk (sse failure_text @ sse step_text @ sse second_text)]) sample_state)
     = [\<lparr>step_id = JStr ''save'', label = JStr ''Saving to database'', status = JStr ''active'', message = JUndef\<rparr>]
   \<and> steps (handleUpload sample_parse (Body [Chunk (sse failure_text @ sse step_text @ sse second_text)]) sample_state)
     \<noteq> steps (handleUpload sample_parse (Body [Chunk (sse failure_text)]) sample_state)
   \<and> result (handleUpload sample_parse (Body [Chunk (sse failure_text @ sse step_text @ sse second_text)]) sample_state)
     \<noteq> result (handleUpload sample_parse (Body [Chunk (sse failure_text)]) sample_state)"
proof -
  have a: "file sample_state = Some (File ''invoice.png'')" by (simp add: sample_state_def)
  have h: "CHR 0x0A \<notin> set step_text" "CHR 0x0A \<notin> set failure_text" "CHR 0x0A \<notin> set second_text"
    by (simp_all add: step_text_def failure_text_def second_text_def)
  have f1: "frames_of (sse failure_text) = [''data: '' @ failure_text]"
    using sse_frames[OF h(2), of "[]"] by (simp add: frames_of_empty)
  have f3: "frames_of (sse failure_text @ sse step_text @ sse second_text)
              = [''data: '' @ failure_text, ''data: '' @ step_text, ''data: '' @ second_text]"
    using sse_frames[OF h(2), of "sse step_text @ sse second_text"]
      sse_frames[OF h(1), of "sse second_text"] sse_frames[OF h(3), of "[]"]
    by (simp add: frames_of_empty)
  have p1: "sample_parse step_text = Some step_value"
    by (simp add: sample_parse_def failure_text_def step_text_def)
  have p2: "sample_parse failure_text = Some failure_value"
    by (simp add: sample_parse_def)
  have p3: "sample_parse second_text = Some second_value"
    by (simp add: sample_parse_def failure_text_def step_text_def second_text_def)
  have one: "\<And>t. handleUpload sample_parse (Body [Chunk t]) sample_state
           = (handle_lines sample_parse (frames_of t) (begin_upload sample_state))\<lparr>isLoading := False\<rparr>"
    using handleUpload_chunks[OF a, of sample_parse "[t]" for t] by simp
  show ?thesis
    unfolding one f1 f3
    by (simp add: handle_lines_Cons handle_lines_Nil handle_line_data p1 p2 p3 handle_data_def
        step_value_def failure_value_def second_value_def begin_upload_def sample_state_def
        step_eval jprop_def)
qed

end
